theory Spec2Isabelle
  imports Complex_Main "HOL-Library.Word"
begin

section \<open>Values shared by the hook engine and the callback registry\<close>

text \<open>
  The embedding follows \<^verbatim>\<open>src/platform_se/skyrim_platform/EventsApi.cpp\<close>.
  Thread identities (\<^verbatim>\<open>DWORD\<close>) and subject ids (\<^verbatim>\<open>uint32_t\<close>) are 32-bit words,
  \<^verbatim>\<open>std::string\<close> is a byte list.
\<close>

type_synonym DWORD = "32 word"
type_synonym uint32_t = "32 word"

text \<open>
  A C++ \<^verbatim>\<open>double\<close>: every value is a real number, an infinity or a NaN. The code only
  compares a \<^verbatim>\<open>uint32_t\<close> (converted exactly) with such a value.
\<close>

datatype double = Finite real | PosInf | NegInf | NaN

fun uint32_lt_double :: "uint32_t \<Rightarrow> double \<Rightarrow> bool" where
  "uint32_lt_double n (Finite r) = (real (unat n) < r)"
| "uint32_lt_double n PosInf = True"
| "uint32_lt_double n NegInf = False"
| "uint32_lt_double n NaN = False"

fun uint32_gt_double :: "uint32_t \<Rightarrow> double \<Rightarrow> bool" where
  "uint32_gt_double n (Finite r) = (real (unat n) > r)"
| "uint32_gt_double n PosInf = False"
| "uint32_gt_double n NegInf = True"
| "uint32_gt_double n NaN = False"

text \<open>
  Exceptions of the source. \<^verbatim>\<open>std::runtime_error\<close> carries its message;
  \<^verbatim>\<open>std::out_of_range\<close> is what \<^verbatim>\<open>unordered_map::at\<close> throws; \<open>JsException\<close> stands for
  an exception coming out of the script engine (a throwing script callback, or a bridge
  operation applied to a value of the wrong type); \<open>InvalidArgumentException\<close> carries
  the argument name and the rejected value.
\<close>

datatype error =
    runtime_error string
  | out_of_range
  | JsException string
  | InvalidArgumentException string string

text \<open>
  \<^verbatim>\<open>e.what()\<close>. The text of \<^verbatim>\<open>std::out_of_range\<close> is the standard library's and
  that of \<open>InvalidArgumentException\<close> is built by a class outside this file; no
  statement below depends on either.
\<close>

fun what :: "error \<Rightarrow> string" where
  "what (runtime_error m) = m"
| "what out_of_range = ''invalid unordered_map<K, T> key''"
| "what (JsException m) = m"
| "what (InvalidArgumentException n v) = ''Invalid argument '' @ n @ '': '' @ v"

section \<open>Pattern\<close>

datatype PatternType = Exact | StartsWith | EndsWith

record Pattern =
  type :: PatternType
  str :: string

text \<open>\<^verbatim>\<open>std::string::find(c)\<close>: the first position of \<open>c\<close>, \<open>None\<close> for \<^verbatim>\<open>npos\<close>.\<close>

fun find_char :: "string \<Rightarrow> char \<Rightarrow> nat option" where
  "find_char [] c = None"
| "find_char (x # xs) c =
     (if x = c then Some 0 else map_option Suc (find_char xs c))"

definition msg_only_one_star :: string where
  "msg_only_one_star =
     ''Patterns can contain only one '' @ [CHR 0x27, CHR ''*'', CHR 0x27] @
     '' at the beginning/end of string''"

definition msg_star_position :: string where
  "msg_star_position =
     ''In patterns '' @ [CHR 0x27, CHR ''*'', CHR 0x27] @
     '' must be at the beginning/end of string''"

definition Parse :: "string \<Rightarrow> error + Pattern" where
  "Parse s =
     (let count = count_list s (CHR ''*'') in
      if count = 0 then Inr \<lparr> type = Exact, str = s \<rparr>
      else if count > 1 then Inl (runtime_error msg_only_one_star)
      else
        (let pos = find_char s (CHR ''*'') in
         if pos = Some 0 then Inr \<lparr> type = EndsWith, str = drop 1 s \<rparr>
         else if pos = Some (length s - 1) then
           Inr \<lparr> type = StartsWith, str = take (length s - 1) s \<rparr>
         else Inl (runtime_error msg_star_position)))"

section \<open>Script values\<close>

text \<open>
  The script value bridge (\<^verbatim>\<open>JsValue\<close>) is an external collaborator. What the hook
  engine needs of it: the undefined value, booleans, numbers, strings, plain objects
  (property maps) and the associative container used as storage. \<open>JsStorage\<close> is the
  reference to the per-thread storage container that \<^verbatim>\<open>PrepareContext\<close> puts under the
  \<^verbatim>\<open>storage\<close> property of the context.
\<close>

datatype JsValue = JsUndefined | JsBool bool | JsNumber double | JsString string | JsStorage

type_synonym JsObject = "string \<rightharpoonup> JsValue"
type_synonym JsMap = "JsValue \<rightharpoonup> JsValue"

text \<open>
  A script callable invoked with a context: it sees the context object and the storage
  container the context refers to, may mutate both, and either returns or throws (the
  message of the thrown exception). What it did before throwing stays done. A member
  that is not callable behaves as a callable that throws at once.
\<close>

type_synonym JsFunction = "JsObject \<times> JsMap \<Rightarrow> string option \<times> JsObject \<times> JsMap"

definition GetProperty :: "JsObject \<Rightarrow> string \<Rightarrow> JsValue" where
  "GetProperty obj name = (case obj name of None \<Rightarrow> JsUndefined | Some v \<Rightarrow> v)"

text \<open>
  Modelled from the spec: the conversion \<^verbatim>\<open>static_cast<std::string>(JsValue)\<close> belongs to
  the script value bridge, whose code is outside this source file. A string value
  converts to its contents; applied to a value with another type tag the bridge raises.
\<close>

fun js_to_string :: "JsValue \<Rightarrow> error + string" where
  "js_to_string (JsString s) = Inr s"
| "js_to_string v = Inl (JsException ''value is not a string'')"

section \<open>Handler\<close>

record PerThread =
  storage :: "JsMap option"
  context' :: "JsObject option"
  matchesCondition :: bool

text \<open>A default-constructed \<^verbatim>\<open>PerThread\<close>: both values undefined, flag false.\<close>

definition PerThread_default :: PerThread where
  "PerThread_default = \<lparr> storage = None, context' = None, matchesCondition = False \<rparr>"

record Handler =
  perThread :: "DWORD \<rightharpoonup> PerThread"
  enter :: JsFunction
  leave :: JsFunction
  pattern :: "Pattern option"
  minSelfId :: "double option"
  maxSelfId :: "double option"

record HandlerObject =
  enter_member :: JsFunction
  leave_member :: JsFunction

definition Handler_new ::
  "HandlerObject \<Rightarrow> double option \<Rightarrow> double option \<Rightarrow> Pattern option \<Rightarrow> Handler" where
  "Handler_new handler0 minSelfId0 maxSelfId0 pattern0 =
     \<lparr> perThread = Map.empty,
       enter = enter_member handler0,
       leave = leave_member handler0,
       pattern = pattern0,
       minSelfId = minSelfId0,
       maxSelfId = maxSelfId0 \<rparr>"

text \<open>\<^verbatim>\<open>memcmp(a, b, n) == 0\<close> on buffers that hold at least \<open>n\<close> bytes.\<close>

definition memcmp_eq :: "string \<Rightarrow> string \<Rightarrow> nat \<Rightarrow> bool" where
  "memcmp_eq a b n = (take n a = take n b)"

definition Pattern_matches :: "Pattern \<Rightarrow> string \<Rightarrow> bool" where
  "Pattern_matches p eventName =
     (case type p of
        Exact \<Rightarrow> eventName = str p
      | StartsWith \<Rightarrow>
          length eventName \<ge> length (str p) \<and>
          memcmp_eq eventName (str p) (length (str p))
      | EndsWith \<Rightarrow>
          length eventName \<ge> length (str p) \<and>
          memcmp_eq (drop (length eventName - length (str p)) eventName) (str p)
            (length (str p)))"

definition Matches :: "Handler \<Rightarrow> uint32_t \<Rightarrow> string \<Rightarrow> bool" where
  "Matches h selfId eventName =
     (if (case minSelfId h of None \<Rightarrow> False | Some m \<Rightarrow> uint32_lt_double selfId m)
        then False
      else if (case maxSelfId h of None \<Rightarrow> False | Some m \<Rightarrow> uint32_gt_double selfId m)
        then False
      else (case pattern h of
              Some p \<Rightarrow> Pattern_matches p eventName
            | None \<Rightarrow> True))"

section \<open>Hook\<close>

record Hook =
  hookName :: string
  eventNameVariableName :: string
  succeededVariableName :: "string option"
  inProgressThreads :: "DWORD set"
  handlers :: "Handler list"

definition Hook_new :: "string \<Rightarrow> string \<Rightarrow> string option \<Rightarrow> Hook" where
  "Hook_new hookName0 eventNameVariableName0 succeededVariableName0 =
     \<lparr> hookName = hookName0,
       eventNameVariableName = eventNameVariableName0,
       succeededVariableName = succeededVariableName0,
       inProgressThreads = {},
       handlers = [] \<rparr>"

definition AddHandler :: "Hook \<Rightarrow> Handler \<Rightarrow> Hook" where
  "AddHandler hk h = hk\<lparr> handlers := handlers hk @ [h] \<rparr>"

text \<open>
  The \<^verbatim>\<open>add\<close> function that \<^verbatim>\<open>CreateHookApi\<close> installs: \<open>a2\<close>, \<open>a3\<close>, \<open>a4\<close> are
  \<^verbatim>\<open>args[2]\<close>, \<^verbatim>\<open>args[3]\<close>, \<^verbatim>\<open>args[4]\<close>. A failing \<open>Parse\<close> leaves before the handler
  is built or added.
\<close>

definition hook_add ::
  "Hook \<Rightarrow> HandlerObject \<Rightarrow> JsValue \<Rightarrow> JsValue \<Rightarrow> JsValue \<Rightarrow> error + Hook" where
  "hook_add hookInfo handlerObj a2 a3 a4 =
     (let minSelfId0 = (case a2 of JsNumber d \<Rightarrow> Some d | _ \<Rightarrow> None);
          maxSelfId0 = (case a3 of JsNumber d \<Rightarrow> Some d | _ \<Rightarrow> None)
      in case a4 of
           JsString s \<Rightarrow>
             (case Parse s of
                Inl e \<Rightarrow> Inl e
              | Inr p \<Rightarrow>
                  Inr (AddHandler hookInfo
                         (Handler_new handlerObj minSelfId0 maxSelfId0 (Some p))))
         | _ \<Rightarrow>
             Inr (AddHandler hookInfo (Handler_new handlerObj minSelfId0 maxSelfId0 None)))"

section \<open>Executor and script calls\<close>

text \<open>
  The two closures the source hands to \<^verbatim>\<open>g_taskQueue.AddTask\<close>: one that throws a
  \<^verbatim>\<open>std::runtime_error\<close> with a message (the asynchronous error report), and the
  deferred \<^verbatim>\<open>HandleEnter\<close> of the fire-and-forget hook with its captured thread, id
  and copy of the event name.
\<close>

datatype Task = ThrowTask string | EnterTask DWORD uint32_t string

text \<open>
  A call of a handler's script callable, with the context and the storage contents it
  was called on.
\<close>

datatype Call = EnterCall JsObject JsMap | LeaveCall JsObject JsMap

text \<open>
  What lies outside the hook: the task queue, the number of work units pushed to the
  script-thread pool and waited for (\<^verbatim>\<open>g_pool.Push(f).wait()\<close>), and the calls made
  into script code so far.
\<close>

record World =
  g_taskQueue :: "Task list"
  g_pool_pushed :: nat
  calls :: "Call list"

definition AddTask :: "Task \<Rightarrow> World \<Rightarrow> World" where
  "AddTask t w = w\<lparr> g_taskQueue := g_taskQueue w @ [t] \<rparr>"

section \<open>Per-thread context\<close>

definition PrepareContext :: "PerThread \<Rightarrow> PerThread" where
  "PrepareContext h =
     (let h1 = (if context' h = None then h\<lparr> context' := Some Map.empty \<rparr> else h)
      in if storage h1 = None
         then h1\<lparr> storage := Some Map.empty,
                  context' := map_option (\<lambda>c. c(''storage'' \<mapsto> JsStorage)) (context' h1) \<rparr>
         else h1)"

text \<open>
  \<^verbatim>\<open>Map.prototype.clear\<close> called on the storage; on a value that is no container the
  script engine raises.
\<close>

definition ClearContextStorage :: "PerThread \<Rightarrow> error option \<times> PerThread" where
  "ClearContextStorage h =
     (case storage h of
        None \<Rightarrow> (Some (JsException ''clear called on a value that is not a Map''), h)
      | Some m \<Rightarrow> (None, h\<lparr> storage := Some Map.empty \<rparr>))"

section \<open>Enter and Leave\<close>

text \<open>
  The body of the loop of \<^verbatim>\<open>HandleEnter\<close> for one handler. The result is the exception
  that left the body (if any), the handler with its per-thread map as the body left it,
  the event name (a reference in the source) and the script calls.
\<close>

definition enter_handler ::
  "string \<Rightarrow> DWORD \<Rightarrow> uint32_t \<Rightarrow> Handler \<Rightarrow> string \<Rightarrow> Call list
     \<Rightarrow> error option \<times> Handler \<times> string \<times> Call list" where
  "enter_handler evVar owningThread selfId h eventName cs =
     (let pt0 = (case perThread h owningThread of
                   None \<Rightarrow> PerThread_default
                 | Some p \<Rightarrow> p);
          pt1 = pt0\<lparr> matchesCondition := Matches h selfId eventName \<rparr>
      in if \<not> matchesCondition pt1
         then (None, h\<lparr> perThread := (perThread h)(owningThread \<mapsto> pt1) \<rparr>, eventName, cs)
         else
           (case ClearContextStorage (PrepareContext pt1) of
              (Some e, pt2) \<Rightarrow>
                (Some e, h\<lparr> perThread := (perThread h)(owningThread \<mapsto> pt2) \<rparr>, eventName, cs)
            | (None, pt2) \<Rightarrow>
                (case (context' pt2, storage pt2) of
                   (Some c, Some s) \<Rightarrow>
                     (let c1 = c(''selfId'' \<mapsto> JsNumber (Finite (real (unat selfId))),
                                 evVar \<mapsto> JsString eventName)
                      in case enter h (c1, s) of
                           (r, c2, s2) \<Rightarrow>
                             (let pt3 = pt2\<lparr> context' := Some c2, storage := Some s2 \<rparr>;
                                  h' = h\<lparr> perThread := (perThread h)(owningThread \<mapsto> pt3) \<rparr>;
                                  cs' = cs @ [EnterCall c1 s]
                              in case r of
                                   Some m \<Rightarrow> (Some (JsException m), h', eventName, cs')
                                 | None \<Rightarrow>
                                     (case js_to_string (GetProperty c2 evVar) of
                                        Inl e \<Rightarrow> (Some e, h', eventName, cs')
                                      | Inr n \<Rightarrow> (None, h', n, cs'))))
                 | _ \<Rightarrow>
                     (Some (JsException ''SetProperty on a value that is not an object''),
                      h\<lparr> perThread := (perThread h)(owningThread \<mapsto> pt2) \<rparr>, eventName, cs))))"

text \<open>The loop over the handlers, in registration order; an exception ends it.\<close>

fun HandleEnter_loop ::
  "string \<Rightarrow> DWORD \<Rightarrow> uint32_t \<Rightarrow> Handler list \<Rightarrow> string \<Rightarrow> Call list
     \<Rightarrow> error option \<times> Handler list \<times> string \<times> Call list" where
  "HandleEnter_loop evVar owningThread selfId [] eventName cs = (None, [], eventName, cs)"
| "HandleEnter_loop evVar owningThread selfId (h # hs) eventName cs =
     (case enter_handler evVar owningThread selfId h eventName cs of
        (Some e, h', n, cs') \<Rightarrow> (Some e, h' # hs, n, cs')
      | (None, h', n, cs') \<Rightarrow>
          (case HandleEnter_loop evVar owningThread selfId hs n cs' of
             (r, hs', n', cs'') \<Rightarrow> (r, h' # hs', n', cs'')))"

definition HandleEnter ::
  "Hook \<Rightarrow> DWORD \<Rightarrow> uint32_t \<Rightarrow> string \<Rightarrow> Call list
     \<Rightarrow> error option \<times> Hook \<times> string \<times> Call list" where
  "HandleEnter hk owningThread selfId eventName cs =
     (case HandleEnter_loop (eventNameVariableName hk) owningThread selfId
             (handlers hk) eventName cs of
        (r, hs, n, cs') \<Rightarrow> (r, hk\<lparr> handlers := hs \<rparr>, n, cs'))"

text \<open>The body of the loop of \<^verbatim>\<open>HandleLeave\<close> for one handler.\<close>

definition leave_handler ::
  "string option \<Rightarrow> DWORD \<Rightarrow> bool \<Rightarrow> Handler \<Rightarrow> Call list
     \<Rightarrow> error option \<times> Handler \<times> Call list" where
  "leave_handler succVar owningThread succeeded h cs =
     (case perThread h owningThread of
        None \<Rightarrow> (Some out_of_range, h, cs)
      | Some pt0 \<Rightarrow>
          if \<not> matchesCondition pt0 then (None, h, cs)
          else
            (let pt1 = PrepareContext pt0
             in case (context' pt1, storage pt1) of
                  (Some c, Some s) \<Rightarrow>
                    (let c1 = (case succVar of
                                 None \<Rightarrow> c
                               | Some v \<Rightarrow> c(v \<mapsto> JsBool succeeded))
                     in case leave h (c1, s) of
                          (r, c2, s2) \<Rightarrow>
                            (let pt2 = pt1\<lparr> context' := Some c2, storage := Some s2 \<rparr>;
                                 cs' = cs @ [LeaveCall c1 s]
                             in case r of
                                  Some m \<Rightarrow>
                                    (Some (JsException m),
                                     h\<lparr> perThread := (perThread h)(owningThread \<mapsto> pt2) \<rparr>, cs')
                                | None \<Rightarrow>
                                    (None,
                                     h\<lparr> perThread := (perThread h)(owningThread := None) \<rparr>, cs')))
                | _ \<Rightarrow>
                    (Some (JsException ''SetProperty on a value that is not an object''),
                     h\<lparr> perThread := (perThread h)(owningThread \<mapsto> pt1) \<rparr>, cs)))"

fun HandleLeave_loop ::
  "string option \<Rightarrow> DWORD \<Rightarrow> bool \<Rightarrow> Handler list \<Rightarrow> Call list
     \<Rightarrow> error option \<times> Handler list \<times> Call list" where
  "HandleLeave_loop succVar owningThread succeeded [] cs = (None, [], cs)"
| "HandleLeave_loop succVar owningThread succeeded (h # hs) cs =
     (case leave_handler succVar owningThread succeeded h cs of
        (Some e, h', cs') \<Rightarrow> (Some e, h' # hs, cs')
      | (None, h', cs') \<Rightarrow>
          (case HandleLeave_loop succVar owningThread succeeded hs cs' of
             (r, hs', cs'') \<Rightarrow> (r, h' # hs', cs'')))"

definition HandleLeave ::
  "Hook \<Rightarrow> DWORD \<Rightarrow> bool \<Rightarrow> Call list \<Rightarrow> error option \<times> Hook \<times> Call list" where
  "HandleLeave hk owningThread succeeded cs =
     (case HandleLeave_loop (succeededVariableName hk) owningThread succeeded
             (handlers hk) cs of
        (r, hs, cs') \<Rightarrow> (r, hk\<lparr> handlers := hs \<rparr>, cs'))"

text \<open>The pre-check of the fire-and-forget hook: the first matching handler ends it.\<close>

fun anyMatch :: "Handler list \<Rightarrow> uint32_t \<Rightarrow> string \<Rightarrow> bool" where
  "anyMatch [] selfId eventName = False"
| "anyMatch (h # hs) selfId eventName =
     (if Matches h selfId eventName then True else anyMatch hs selfId eventName)"

definition quoted :: "string \<Rightarrow> string" where
  "quoted s = [CHR 0x27] @ s @ [CHR 0x27]"

text \<open>The \<^verbatim>\<open>try\<close> block of the closure that \<^verbatim>\<open>Enter\<close> pushes to the pool.\<close>

definition Enter_try ::
  "Hook \<Rightarrow> DWORD \<Rightarrow> uint32_t \<Rightarrow> string \<Rightarrow> Call list
     \<Rightarrow> error option \<times> Hook \<times> string \<times> Call list" where
  "Enter_try hk owningThread selfId eventName cs =
     (if owningThread \<in> inProgressThreads hk
      then (Some (runtime_error (quoted (hookName hk) @ '' is already processing'')),
            hk, eventName, cs)
      else HandleEnter (hk\<lparr> inProgressThreads := insert owningThread (inProgressThreads hk) \<rparr>)
             owningThread selfId eventName cs)"

text \<open>
  \<^verbatim>\<open>Hook::Enter\<close>, called on thread \<open>owningThread\<close>. The result is the hook, the
  caller's event name (passed by reference) and the world after the call returned. The
  \<^verbatim>\<open>catch\<close> clause of the closure turns whatever exception left the \<^verbatim>\<open>try\<close> block into
  a throwing task on the queue, so the call itself has no exceptional outcome; the same
  holds for \<open>Leave\<close> below.
\<close>

definition Enter ::
  "Hook \<Rightarrow> DWORD \<Rightarrow> uint32_t \<Rightarrow> string \<Rightarrow> World \<Rightarrow> Hook \<times> string \<times> World" where
  "Enter hk owningThread selfId eventName w =
     (if hookName hk = ''sendPapyrusEvent'' then
        (if \<not> anyMatch (handlers hk) selfId eventName then (hk, eventName, w)
         else (hk, eventName, AddTask (EnterTask owningThread selfId eventName) w))
      else
        (case Enter_try hk owningThread selfId eventName (calls w) of
           (r, hk', n, cs) \<Rightarrow>
             (let w1 = w\<lparr> g_pool_pushed := Suc (g_pool_pushed w), calls := cs \<rparr>
              in case r of
                   None \<Rightarrow> (hk', n, w1)
                 | Some e \<Rightarrow>
                     (hk', n,
                      AddTask (ThrowTask (what e @ '' (while performing enter on '' @
                                          quoted (hookName hk) @ '')'')) w1))))"

text \<open>
  The deferred task of the fire-and-forget hook: \<^verbatim>\<open>HandleEnter\<close> on a copy of the
  event name, which is dropped afterwards.
\<close>

definition EnterTask_run ::
  "Hook \<Rightarrow> DWORD \<Rightarrow> uint32_t \<Rightarrow> string \<Rightarrow> Call list \<Rightarrow> error option \<times> Hook \<times> Call list" where
  "EnterTask_run hk owningThread selfId eventName cs =
     (case HandleEnter hk owningThread selfId eventName cs of
        (r, hk', s, cs') \<Rightarrow> (r, hk', cs'))"

definition Leave_try ::
  "Hook \<Rightarrow> DWORD \<Rightarrow> bool \<Rightarrow> Call list \<Rightarrow> error option \<times> Hook \<times> Call list" where
  "Leave_try hk owningThread succeeded cs =
     (if owningThread \<notin> inProgressThreads hk
      then (Some (runtime_error (quoted (hookName hk) @ '' is not processing'')), hk, cs)
      else HandleLeave (hk\<lparr> inProgressThreads := inProgressThreads hk - {owningThread} \<rparr>)
             owningThread succeeded cs)"

definition Leave :: "Hook \<Rightarrow> DWORD \<Rightarrow> bool \<Rightarrow> World \<Rightarrow> Hook \<times> World" where
  "Leave hk owningThread succeeded w =
     (if hookName hk = ''sendPapyrusEvent'' then (hk, w)
      else
        (case Leave_try hk owningThread succeeded (calls w) of
           (r, hk', cs) \<Rightarrow>
             (let w1 = w\<lparr> g_pool_pushed := Suc (g_pool_pushed w), calls := cs \<rparr>
              in case r of
                   None \<Rightarrow> (hk', w1)
                 | Some e \<Rightarrow>
                     (hk', AddTask (ThrowTask (what e @ '' (in SendAnimationEventLeave)'')) w1))))"

section \<open>Sequences of native calls\<close>

text \<open>
  The instrumented call sites call \<open>Enter\<close> and \<open>Leave\<close> from many threads; on a hook
  other than the fire-and-forget one the body of each call runs on the script thread
  while the caller waits, so the calls take effect one after the other. A native call
  names the calling thread and its arguments; the event name handed back by \<open>Enter\<close>
  stays with the caller.
\<close>

datatype NativeCall = NativeEnter DWORD uint32_t string | NativeLeave DWORD bool

fun native_call :: "NativeCall \<Rightarrow> Hook \<times> World \<Rightarrow> Hook \<times> World" where
  "native_call (NativeEnter t selfId eventName) (hk, w) =
     (case Enter hk t selfId eventName w of (hk', n, w') \<Rightarrow> (hk', w'))"
| "native_call (NativeLeave t succeeded) (hk, w) = Leave hk t succeeded w"

fun native_calls :: "NativeCall list \<Rightarrow> Hook \<times> World \<Rightarrow> Hook \<times> World" where
  "native_calls [] st = st"
| "native_calls (c # cs) st = native_calls cs (native_call c st)"

text \<open>What a hook holds for one thread: per handler, the entry of the thread and the leave callback.\<close>

definition thread_view :: "DWORD \<Rightarrow> Hook \<Rightarrow> (PerThread option \<times> JsFunction) list" where
  "thread_view t hk = map (\<lambda>h. (perThread h t, leave h)) (handlers hk)"

section \<open>Callback registry\<close>

text \<open>
  A script callback of the registry is a script function: calling it can register
  further callbacks through \<^verbatim>\<open>on\<close> and \<^verbatim>\<open>once\<close> and can throw. A callback is
  identified by \<open>cb_id\<close>; its body is the list of what it does, in order.
\<close>

datatype 'c Action = CallOn string 'c | CallOnce string 'c | Throw string

datatype Callback = Callback (cb_id: nat) (cb_body: "Callback Action list")

type_synonym Callbacks = "string \<rightharpoonup> Callback list"

record EventsGlobalState =
  callbacks :: Callbacks
  callbacksOnce :: Callbacks
  sendAnimationEvent :: Hook
  sendPapyrusEvent :: Hook

definition EventsGlobalState_new :: EventsGlobalState where
  "EventsGlobalState_new =
     \<lparr> callbacks = Map.empty,
       callbacksOnce = Map.empty,
       sendAnimationEvent =
         Hook_new ''sendAnimationEvent'' ''animEventName'' (Some ''animationSucceeded''),
       sendPapyrusEvent = Hook_new ''sendPapyrusEvent'' ''papyrusEventName'' None \<rparr>"

text \<open>\<^verbatim>\<open>m[key]\<close> read from a \<^verbatim>\<open>std::map\<close> of vectors: an absent key reads as empty.\<close>

definition at_key :: "Callbacks \<Rightarrow> string \<Rightarrow> Callback list" where
  "at_key m key = (case m key of None \<Rightarrow> [] | Some v \<Rightarrow> v)"

definition events :: "string set" where
  "events = { ''tick'', ''update'', ''effectStart'', ''effectFinish'', ''magicEffectApply'',
              ''equip'', ''unequip'', ''hit'', ''containerChanged'', ''deathStart'',
              ''deathEnd'', ''loadGame'', ''combatState'', ''reset'', ''scriptInit'',
              ''trackedStats'', ''uniqueIdChange'', ''switchRaceComplete'',
              ''cellFullyLoaded'', ''grabRelease'', ''lockChanged'', ''moveAttachDetach'',
              ''objectLoaded'', ''waitStop'', ''activate'' }"

definition AddCallback ::
  "string \<Rightarrow> Callback \<Rightarrow> bool \<Rightarrow> EventsGlobalState \<Rightarrow> error + EventsGlobalState" where
  "AddCallback eventName callback isOnce g =
     (if eventName \<notin> events then Inl (InvalidArgumentException ''eventName'' eventName)
      else if isOnce
        then Inr (g\<lparr> callbacksOnce :=
                     (callbacksOnce g)(eventName \<mapsto> at_key (callbacksOnce g) eventName @ [callback]) \<rparr>)
        else Inr (g\<lparr> callbacks :=
                     (callbacks g)(eventName \<mapsto> at_key (callbacks g) eventName @ [callback]) \<rparr>))"

definition On :: "string \<Rightarrow> Callback \<Rightarrow> EventsGlobalState \<Rightarrow> error + EventsGlobalState" where
  "On eventName callback g = AddCallback eventName callback False g"

definition Once :: "string \<Rightarrow> Callback \<Rightarrow> EventsGlobalState \<Rightarrow> error + EventsGlobalState" where
  "Once eventName callback g = AddCallback eventName callback True g"

text \<open>An invocation of a registry callback: which callback, with which arguments.\<close>

type_synonym Invocation = "nat \<times> JsValue list"

fun run_body ::
  "Callback Action list \<Rightarrow> EventsGlobalState \<Rightarrow> error option \<times> EventsGlobalState" where
  "run_body [] g = (None, g)"
| "run_body (Throw m # as) g = (Some (JsException m), g)"
| "run_body (CallOn n c # as) g =
     (case On n c g of Inl e \<Rightarrow> (Some e, g) | Inr g' \<Rightarrow> run_body as g')"
| "run_body (CallOnce n c # as) g =
     (case Once n c g of Inl e \<Rightarrow> (Some e, g) | Inr g' \<Rightarrow> run_body as g')"

text \<open>\<^verbatim>\<open>f.Call(arguments)\<close> for a registry callback.\<close>

definition Call_callback ::
  "Callback \<Rightarrow> JsValue list \<Rightarrow> EventsGlobalState \<times> Invocation list
     \<Rightarrow> error option \<times> EventsGlobalState \<times> Invocation list" where
  "Call_callback f arguments st =
     (case st of (g, ivs) \<Rightarrow>
        (case run_body (cb_body f) g of
           (r, g') \<Rightarrow> (r, g', ivs @ [(cb_id f, arguments)])))"

text \<open>The loop of \<^verbatim>\<open>CallCalbacks\<close> over the copied vector.\<close>

fun call_each ::
  "Callback list \<Rightarrow> JsValue list \<Rightarrow> EventsGlobalState \<times> Invocation list
     \<Rightarrow> error option \<times> EventsGlobalState \<times> Invocation list" where
  "call_each [] arguments st = (None, st)"
| "call_each (f # fs) arguments st =
     (case Call_callback f arguments st of
        (Some e, st') \<Rightarrow> (Some e, st')
      | (None, st') \<Rightarrow> call_each fs arguments st')"

definition CallCalbacks ::
  "string \<Rightarrow> JsValue list \<Rightarrow> bool \<Rightarrow> EventsGlobalState \<times> Invocation list
     \<Rightarrow> error option \<times> EventsGlobalState \<times> Invocation list" where
  "CallCalbacks eventName arguments isOnce st =
     (case st of (g, ivs) \<Rightarrow>
        (let callbacks_copy = (if isOnce then callbacksOnce g else callbacks g);
             g1 = (if isOnce
                   then g\<lparr> callbacksOnce := (callbacksOnce g)(eventName \<mapsto> []) \<rparr>
                   else g)
         in call_each (at_key callbacks_copy eventName) arguments (g1, ivs)))"

definition SendEvent ::
  "string \<Rightarrow> JsValue list \<Rightarrow> EventsGlobalState \<times> Invocation list
     \<Rightarrow> error option \<times> EventsGlobalState \<times> Invocation list" where
  "SendEvent eventName arguments st =
     (case CallCalbacks eventName arguments False st of
        (Some e, st') \<Rightarrow> (Some e, st')
      | (None, st') \<Rightarrow> CallCalbacks eventName arguments True st')"

definition Clear :: "EventsGlobalState \<Rightarrow> EventsGlobalState" where
  "Clear g = EventsGlobalState_new"

section \<open>Example configurations\<close>

text \<open>Concrete handlers, hooks and worlds on which the statements below are exercised.\<close>

definition ex_world :: World where
  "ex_world = \<lparr> g_taskQueue = [], g_pool_pushed = 0, calls = [] \<rparr>"

definition keep :: JsFunction where
  "keep = (\<lambda>(c, s). (None, c, s))"

definition ex_object :: HandlerObject where
  "ex_object = \<lparr> enter_member = keep, leave_member = keep \<rparr>"

definition ex_animation_hook :: Hook where
  "ex_animation_hook = sendAnimationEvent EventsGlobalState_new"

definition ex_papyrus_hook :: Hook where
  "ex_papyrus_hook =
     AddHandler (sendPapyrusEvent EventsGlobalState_new)
       (Handler_new ex_object (Some (Finite 5)) (Some (Finite 10))
          (Some \<lparr> type = StartsWith, str = ''On'' \<rparr>))"

definition rename_to :: "string \<Rightarrow> string \<Rightarrow> JsFunction" where
  "rename_to v s = (\<lambda>(c, st). (None, c(v \<mapsto> JsString s), st))"

definition ex_rewrite_first :: Handler where
  "ex_rewrite_first =
     Handler_new \<lparr> enter_member = rename_to ''animEventName'' ''b'', leave_member = keep \<rparr>
       None None None"

definition ex_rewrite_second :: Handler where
  "ex_rewrite_second =
     Handler_new \<lparr> enter_member = rename_to ''animEventName'' ''c'', leave_member = keep \<rparr>
       None None (Some \<lparr> type = Exact, str = ''b'' \<rparr>)"

definition ex_rewrite_third :: Handler where
  "ex_rewrite_third =
     Handler_new \<lparr> enter_member = rename_to ''animEventName'' ''d'', leave_member = keep \<rparr>
       None None (Some \<lparr> type = Exact, str = ''a'' \<rparr>)"

definition ex_rewrite_hook :: Hook where
  "ex_rewrite_hook =
     AddHandler (AddHandler (AddHandler ex_animation_hook ex_rewrite_first) ex_rewrite_second)
       ex_rewrite_third"




definition ex_unmatched_hook :: Hook where
  "ex_unmatched_hook =
     AddHandler ex_animation_hook
       (Handler_new ex_object None None (Some \<lparr> type = Exact, str = ''foo'' \<rparr>))"

section \<open>Notions used to state the registry's properties\<close>

text \<open>The callbacks that one action, or a whole callback body, registers once under a name.\<close>

fun once_of :: "string \<Rightarrow> Callback Action \<Rightarrow> Callback list" where
  "once_of n (CallOnce m c) = (if m = n then [c] else [])"
| "once_of n (CallOn m c) = []"
| "once_of n (Throw m) = []"

definition registers_once :: "string \<Rightarrow> Callback \<Rightarrow> Callback list" where
  "registers_once n f = concat (map (once_of n) (cb_body f))"

text \<open>
  The dispatch as the specification words it: snapshot both lists for the name, clear
  the live one-shot list, then invoke the persistent snapshot followed by the one-shot
  snapshot. It is compared with \<open>SendEvent\<close> below.
\<close>

definition SendEvent_as_specified ::
  "string \<Rightarrow> JsValue list \<Rightarrow> EventsGlobalState \<times> Invocation list
     \<Rightarrow> error option \<times> EventsGlobalState \<times> Invocation list" where
  "SendEvent_as_specified eventName arguments st =
     (case st of (g, ivs) \<Rightarrow>
        (let persistent = at_key (callbacks g) eventName;
             oneShot = at_key (callbacksOnce g) eventName;
             g1 = g\<lparr> callbacksOnce := (callbacksOnce g)(eventName \<mapsto> []) \<rparr>
         in call_each (persistent @ oneShot) arguments (g1, ivs)))"

text \<open>The identities of a callback and of every callback its body mentions, at any depth.\<close>

function callback_ids :: "Callback \<Rightarrow> nat set" where
  "callback_ids (Callback i as) = insert i (\<Union>a \<in> set as. \<Union>c \<in> set_Action a. callback_ids c)"
  by pat_completeness auto
termination
proof (relation "measure size")
  show "wf (measure size)" by simp
next
  fix i :: nat and as :: "Callback Action list" and a c
  assume a: "a \<in> set as" and c: "c \<in> set_Action a"
  have "size c < size_Action size a" using c by (cases a) auto
  also have "\<dots> \<le> size_list (size_Action size) as"
    using a by (simp add: size_list_estimation')
  finally show "(c, Callback i as) \<in> measure size" by simp
qed

definition action_ids :: "Callback Action list \<Rightarrow> nat set" where
  "action_ids as = (\<Union>a \<in> set as. \<Union>c \<in> set_Action a. callback_ids c)"

text \<open>The identities that occur in the callbacks a registry state holds.\<close>

definition known :: "EventsGlobalState \<Rightarrow> nat set" where
  "known g = (\<Union>fs \<in> ran (callbacks g) \<union> ran (callbacksOnce g). \<Union>f \<in> set fs. callback_ids f)"

definition ex_registrar :: Callback where
  "ex_registrar = Callback 1 [CallOnce ''tick'' (Callback 2 [])]"

definition ex_registry :: EventsGlobalState where
  "ex_registry = EventsGlobalState_new\<lparr> callbacks := [''tick'' \<mapsto> [ex_registrar]] \<rparr>"








section \<open>Properties of the pattern matcher and of handler matching\<close>

lemma find_char_append: "c \<notin> set s \<Longrightarrow> find_char (s @ c # t) c = Some (length s)"
  by (induction s) auto

lemma enter_handler_error:
  "enter_handler v t i h n cs = (Some e, r) \<Longrightarrow> \<exists>m. e = JsException m"
  by (auto simp: enter_handler_def ClearContextStorage_def Let_def
           split: if_splits option.splits prod.splits sum.splits elim: js_to_string.elims)

lemma HandleEnter_loop_error:
  "HandleEnter_loop v t i hs n cs = (Some e, r) \<Longrightarrow> \<exists>m. e = JsException m"
proof (induction hs arbitrary: n cs r)
  case Nil
  then show ?case by simp
next
  case (Cons h hs)
  then show ?case
    by (auto split: prod.splits option.splits dest: enter_handler_error)
qed

lemma HandleEnter_error:
  "fst (HandleEnter hk t i n cs) = Some e \<Longrightarrow> \<exists>m. e = JsException m"
  by (auto simp: HandleEnter_def split: prod.splits dest: HandleEnter_loop_error)

lemma leave_handler_error:
  "leave_handler v t b h cs = (Some e, r) \<Longrightarrow> e = out_of_range \<or> (\<exists>m. e = JsException m)"
  by (auto simp: leave_handler_def Let_def
           split: if_splits option.splits prod.splits)

lemma HandleLeave_loop_error:
  "HandleLeave_loop v t b hs cs = (Some e, r) \<Longrightarrow> e = out_of_range \<or> (\<exists>m. e = JsException m)"
proof (induction hs arbitrary: cs r)
  case Nil
  then show ?case by simp
next
  case (Cons h hs)
  then show ?case
    by (auto split: prod.splits option.splits dest: leave_handler_error)
qed

lemma HandleLeave_error:
  "fst (HandleLeave hk t b cs) = Some e \<Longrightarrow> e = out_of_range \<or> (\<exists>m. e = JsException m)"
  by (auto simp: HandleLeave_def split: prod.splits dest: HandleLeave_loop_error)

text \<open>
  C6. \<open>Parse\<close> maps a string without \<^verbatim>\<open>*\<close> to \<open>Exact\<close>, \<^verbatim>\<open>*X\<close> to \<open>EndsWith X\<close> and
  \<^verbatim>\<open>X*\<close> to \<open>StartsWith X\<close> (\<open>X\<close> without \<^verbatim>\<open>*\<close>; the lone \<^verbatim>\<open>*\<close> falls under the
  \<^verbatim>\<open>*X\<close> rule), and fails on every string with more than one \<^verbatim>\<open>*\<close> and on every string
  whose only \<^verbatim>\<open>*\<close> has text on both sides. The failure happens while the handler is
  registered: \<open>hook_add\<close> passes it on and adds nothing, and neither \<open>HandleEnter\<close> nor
  \<open>HandleLeave\<close> ever raises a \<open>runtime_error\<close>.
\<close>

theorem Parse_grammar:
  "(CHR ''*'' \<notin> set s \<longrightarrow> Parse s = Inr \<lparr> type = Exact, str = s \<rparr>) \<and>
   (CHR ''*'' \<notin> set x \<longrightarrow> Parse (CHR ''*'' # x) = Inr \<lparr> type = EndsWith, str = x \<rparr>) \<and>
   (CHR ''*'' \<notin> set x \<and> x \<noteq> [] \<longrightarrow>
      Parse (x @ [CHR ''*'']) = Inr \<lparr> type = StartsWith, str = x \<rparr>) \<and>
   (count_list s (CHR ''*'') > 1 \<longrightarrow> Parse s = Inl (runtime_error msg_only_one_star)) \<and>
   (CHR ''*'' \<notin> set a \<and> CHR ''*'' \<notin> set b \<and> a \<noteq> [] \<and> b \<noteq> [] \<longrightarrow>
      Parse (a @ CHR ''*'' # b) = Inl (runtime_error msg_star_position)) \<and>
   (Parse s = Inl e \<longrightarrow> hook_add hk obj a2 a3 (JsString s) = Inl e) \<and>
   (\<forall>m. fst (HandleEnter hk t i n cs) \<noteq> Some (runtime_error m)) \<and>
   (\<forall>m. fst (HandleLeave hk t ok cs) \<noteq> Some (runtime_error m))"
proof (intro conjI impI allI)
  show "Parse s = Inr \<lparr> type = Exact, str = s \<rparr>" if "CHR ''*'' \<notin> set s"
    using that by (simp add: Parse_def)
  show "Parse (CHR ''*'' # x) = Inr \<lparr> type = EndsWith, str = x \<rparr>" if "CHR ''*'' \<notin> set x"
    using that by (simp add: Parse_def)
  show "Parse (x @ [CHR ''*'']) = Inr \<lparr> type = StartsWith, str = x \<rparr>"
    if "CHR ''*'' \<notin> set x \<and> x \<noteq> []"
    using that by (simp add: Parse_def find_char_append)
  show "Parse s = Inl (runtime_error msg_only_one_star)" if "count_list s (CHR ''*'') > 1"
    using that by (simp add: Parse_def)
  show "Parse (a @ CHR ''*'' # b) = Inl (runtime_error msg_star_position)"
    if "CHR ''*'' \<notin> set a \<and> CHR ''*'' \<notin> set b \<and> a \<noteq> [] \<and> b \<noteq> []"
    using that by (simp add: Parse_def find_char_append)
  show "hook_add hk obj a2 a3 (JsString s) = Inl e" if "Parse s = Inl e"
    using that by (simp add: hook_add_def)
  show "fst (HandleEnter hk t i n cs) \<noteq> Some (runtime_error m)" for m
    using HandleEnter_error by blast
  show "fst (HandleLeave hk t ok cs) \<noteq> Some (runtime_error m)" for m
    using HandleLeave_error by blast
qed

theorem Parse_grammar_witness:
  "Parse ''foo'' = Inr \<lparr> type = Exact, str = ''foo'' \<rparr> \<and>
   Parse ''*foo'' = Inr \<lparr> type = EndsWith, str = ''foo'' \<rparr> \<and>
   Parse ''foo*'' = Inr \<lparr> type = StartsWith, str = ''foo'' \<rparr> \<and>
   Parse ''f*o*o'' = Inl (runtime_error msg_only_one_star) \<and>
   Parse ''f*o'' = Inl (runtime_error msg_star_position) \<and>
   hook_add ex_animation_hook ex_object JsUndefined JsUndefined (JsString ''f*o*o'') =
     Inl (runtime_error msg_only_one_star)"
proof -
  note g1 = Parse_grammar [where s = "''foo''" and x = "''foo''" and a = "''f''" and b = "''o''"]
  note g2 = Parse_grammar [where s = "''f*o*o''" and e = "runtime_error msg_only_one_star"
               and hk = ex_animation_hook and obj = ex_object
               and ?a2.0 = JsUndefined and ?a3.0 = JsUndefined]
  have "Parse ''foo'' = Inr \<lparr> type = Exact, str = ''foo'' \<rparr>"
    using g1 [THEN conjunct1] by simp
  moreover have "Parse ''*foo'' = Inr \<lparr> type = EndsWith, str = ''foo'' \<rparr>"
    using g1 [THEN conjunct2, THEN conjunct1] by simp
  moreover have "Parse ''foo*'' = Inr \<lparr> type = StartsWith, str = ''foo'' \<rparr>"
    using g1 [THEN conjunct2, THEN conjunct2, THEN conjunct1] by simp
  moreover have m: "Parse ''f*o*o'' = Inl (runtime_error msg_only_one_star)"
    using g2 [THEN conjunct2, THEN conjunct2, THEN conjunct2, THEN conjunct1] by simp
  moreover have "Parse ''f*o'' = Inl (runtime_error msg_star_position)"
    using g1 [THEN conjunct2, THEN conjunct2, THEN conjunct2, THEN conjunct2, THEN conjunct1]
    by simp
  moreover have
    "hook_add ex_animation_hook ex_object JsUndefined JsUndefined (JsString ''f*o*o'') =
       Inl (runtime_error msg_only_one_star)"
    using g2 [THEN conjunct2, THEN conjunct2, THEN conjunct2, THEN conjunct2, THEN conjunct2,
              THEN conjunct1] m by simp
  ultimately show ?thesis by simp
qed

text \<open>
  C7. \<open>Matches\<close> fails on an id below a present minimum whatever the rest is, then on an
  id above a present maximum, and otherwise is the pattern's answer, or true without a
  pattern; with all three absent it is true. Both bounds are inclusive: with minimum 5
  and maximum 10 the ids 4 and 11 never match and for 5 and 10 the pattern alone
  decides. A \<open>StartsWith\<close> or \<open>EndsWith\<close> pattern never matches a shorter name.
\<close>

theorem Matches_order:
  "(minSelfId h = Some lo \<and> uint32_lt_double selfId lo \<longrightarrow> \<not> Matches h selfId n) \<and>
   (maxSelfId h = Some hi \<and> uint32_gt_double selfId hi \<longrightarrow> \<not> Matches h selfId n) \<and>
   ((\<forall>lo. minSelfId h = Some lo \<longrightarrow> \<not> uint32_lt_double selfId lo) \<and>
    (\<forall>hi. maxSelfId h = Some hi \<longrightarrow> \<not> uint32_gt_double selfId hi) \<longrightarrow>
      Matches h selfId n = (case pattern h of None \<Rightarrow> True | Some p \<Rightarrow> Pattern_matches p n)) \<and>
   (minSelfId h = None \<and> maxSelfId h = None \<and> pattern h = None \<longrightarrow> Matches h selfId n) \<and>
   (minSelfId h = Some (Finite 5) \<and> maxSelfId h = Some (Finite 10) \<longrightarrow>
      \<not> Matches h 4 n \<and> \<not> Matches h 11 n \<and>
      Matches h 5 n = (case pattern h of None \<Rightarrow> True | Some p \<Rightarrow> Pattern_matches p n) \<and>
      Matches h 10 n = (case pattern h of None \<Rightarrow> True | Some p \<Rightarrow> Pattern_matches p n)) \<and>
   (pattern h = Some p \<and> type p \<noteq> Exact \<and> length n < length (str p) \<longrightarrow>
      \<not> Matches h selfId n)"
proof (intro conjI impI)
  show "\<not> Matches h selfId n" if "minSelfId h = Some lo \<and> uint32_lt_double selfId lo"
    using that by (simp add: Matches_def)
  show "\<not> Matches h selfId n" if "maxSelfId h = Some hi \<and> uint32_gt_double selfId hi"
    using that by (simp add: Matches_def)
  show "Matches h selfId n = (case pattern h of None \<Rightarrow> True | Some p \<Rightarrow> Pattern_matches p n)"
    if "(\<forall>lo. minSelfId h = Some lo \<longrightarrow> \<not> uint32_lt_double selfId lo) \<and>
        (\<forall>hi. maxSelfId h = Some hi \<longrightarrow> \<not> uint32_gt_double selfId hi)"
    using that by (auto simp: Matches_def split: option.splits)
  show "Matches h selfId n" if "minSelfId h = None \<and> maxSelfId h = None \<and> pattern h = None"
    using that by (simp add: Matches_def)
  assume b: "minSelfId h = Some (Finite 5) \<and> maxSelfId h = Some (Finite 10)"
  show "\<not> Matches h 4 n" using b by (simp add: Matches_def)
  show "\<not> Matches h 11 n" using b by (simp add: Matches_def)
  show "Matches h 5 n = (case pattern h of None \<Rightarrow> True | Some p \<Rightarrow> Pattern_matches p n)"
    using b by (simp add: Matches_def split: option.splits)
  show "Matches h 10 n = (case pattern h of None \<Rightarrow> True | Some p \<Rightarrow> Pattern_matches p n)"
    using b by (simp add: Matches_def split: option.splits)
next
  show "\<not> Matches h selfId n"
    if "pattern h = Some p \<and> type p \<noteq> Exact \<and> length n < length (str p)"
    using that by (cases "type p") (auto simp: Matches_def Pattern_matches_def)
qed

theorem Matches_order_witness:
  "\<not> Matches (hd (handlers ex_papyrus_hook)) 4 ''OnHit'' \<and>
   \<not> Matches (hd (handlers ex_papyrus_hook)) 11 ''OnHit'' \<and>
   Matches (hd (handlers ex_papyrus_hook)) 5 ''OnHit'' \<and>
   Matches (hd (handlers ex_papyrus_hook)) 10 ''OnHit'' \<and>
   \<not> Matches (hd (handlers ex_papyrus_hook)) 7 ''Hit'' \<and>
   \<not> Matches (hd (handlers ex_papyrus_hook)) 10 ''O'' \<and>
   Matches (Handler_new ex_object None None None) 4 ''OnHit''"
proof -
  let ?h = "hd (handlers ex_papyrus_hook)"
  let ?p = "\<lparr> type = StartsWith, str = ''On'' \<rparr>"
  have h: "minSelfId ?h = Some (Finite 5)" "maxSelfId ?h = Some (Finite 10)"
    "pattern ?h = Some ?p"
    by (simp_all add: ex_papyrus_hook_def AddHandler_def Handler_new_def
          EventsGlobalState_new_def Hook_new_def)
  note m1 = Matches_order [where h = ?h and lo = "Finite 5" and hi = "Finite 10"
      and selfId = 4 and n = "''OnHit''" and p = ?p]
  note m2 = Matches_order [where h = ?h and lo = "Finite 5" and hi = "Finite 10"
      and selfId = 11 and n = "''OnHit''" and p = ?p]
  note m3 = Matches_order [where h = ?h and lo = "Finite 5" and hi = "Finite 10"
      and selfId = 10 and n = "''O''" and p = ?p]
  note m4 = Matches_order [where h = "Handler_new ex_object None None None"
      and selfId = 4 and n = "''OnHit''"]
  note m5 = Matches_order [where h = ?h and selfId = 7 and n = "''Hit''"]
  have "\<not> Matches ?h 4 ''OnHit''"
    using m1 [THEN conjunct1] h by simp
  moreover have "\<not> Matches ?h 11 ''OnHit''"
    using m2 [THEN conjunct2, THEN conjunct1] h by simp
  moreover have "Matches ?h 5 ''OnHit'' \<and> Matches ?h 10 ''OnHit''"
    using m1 [THEN conjunct2, THEN conjunct2, THEN conjunct2, THEN conjunct2, THEN conjunct1] h
    by (simp add: Pattern_matches_def memcmp_eq_def)
  moreover have "\<not> Matches ?h 7 ''Hit''"
    using m5 [THEN conjunct2, THEN conjunct2, THEN conjunct1] h
    by (simp add: Pattern_matches_def memcmp_eq_def)
  moreover have "\<not> Matches ?h 10 ''O''"
    using m3 [THEN conjunct2, THEN conjunct2, THEN conjunct2, THEN conjunct2, THEN conjunct2] h
    by simp
  moreover have "Matches (Handler_new ex_object None None None) 4 ''OnHit''"
    using m4 [THEN conjunct2, THEN conjunct2, THEN conjunct2, THEN conjunct1]
    by (simp add: Handler_new_def)
  ultimately show ?thesis by simp
qed

section \<open>Properties of the Enter/Leave protocol\<close>

lemma enter_handler_frame:
  "t' \<noteq> t \<Longrightarrow> enter_handler v t' i h n cs = (r, h', n', cs') \<Longrightarrow>
   perThread h' t = perThread h t \<and> leave h' = leave h"
  by (auto simp: enter_handler_def Let_def
           split: if_splits option.splits prod.splits sum.splits)

lemma HandleEnter_loop_frame:
  "t' \<noteq> t \<Longrightarrow> HandleEnter_loop v t' i hs n cs = (r, hs', n', cs') \<Longrightarrow>
   map (\<lambda>h. (perThread h t, leave h)) hs' = map (\<lambda>h. (perThread h t, leave h)) hs"
proof (induction hs arbitrary: n cs r hs' n' cs')
  case Nil
  then show ?case by simp
next
  case (Cons h hs)
  obtain r1 h1 n1 cs1 where e: "enter_handler v t' i h n cs = (r1, h1, n1, cs1)"
    by (cases "enter_handler v t' i h n cs") auto
  note f = enter_handler_frame [OF Cons.prems(1) e]
  show ?case
  proof (cases r1)
    case None
    obtain r2 hs2 n2 cs2 where l: "HandleEnter_loop v t' i hs n1 cs1 = (r2, hs2, n2, cs2)"
      by (cases "HandleEnter_loop v t' i hs n1 cs1") auto
    from Cons.IH [OF Cons.prems(1) l] Cons.prems(2) e l None f show ?thesis by auto
  next
    case (Some a)
    with Cons.prems(2) e f show ?thesis by auto
  qed
qed

lemma leave_handler_frame:
  "t' \<noteq> t \<Longrightarrow> leave_handler v t' b h cs = (r, h', cs') \<Longrightarrow>
   perThread h' t = perThread h t \<and> leave h' = leave h"
  by (auto simp: leave_handler_def Let_def split: if_splits option.splits prod.splits)

lemma HandleLeave_loop_frame:
  "t' \<noteq> t \<Longrightarrow> HandleLeave_loop v t' b hs cs = (r, hs', cs') \<Longrightarrow>
   map (\<lambda>h. (perThread h t, leave h)) hs' = map (\<lambda>h. (perThread h t, leave h)) hs"
proof (induction hs arbitrary: cs r hs' cs')
  case Nil
  then show ?case by simp
next
  case (Cons h hs)
  obtain r1 h1 cs1 where e: "leave_handler v t' b h cs = (r1, h1, cs1)"
    by (cases "leave_handler v t' b h cs") auto
  note f = leave_handler_frame [OF Cons.prems(1) e]
  show ?case
  proof (cases r1)
    case None
    obtain r2 hs2 cs2 where l: "HandleLeave_loop v t' b hs cs1 = (r2, hs2, cs2)"
      by (cases "HandleLeave_loop v t' b hs cs1") auto
    from Cons.IH [OF Cons.prems(1) l] Cons.prems(2) e l None f show ?thesis by auto
  next
    case (Some a)
    with Cons.prems(2) e f show ?thesis by auto
  qed
qed

lemma Enter_config:
  "Enter hk t' i n w = (hk', n', w') \<Longrightarrow>
   hookName hk' = hookName hk \<and> succeededVariableName hk' = succeededVariableName hk \<and>
   eventNameVariableName hk' = eventNameVariableName hk"
  by (auto simp: Enter_def Enter_try_def HandleEnter_def Let_def
           split: if_splits prod.splits option.splits)

lemma Leave_config:
  "Leave hk t' b w = (hk', w') \<Longrightarrow>
   hookName hk' = hookName hk \<and> succeededVariableName hk' = succeededVariableName hk \<and>
   eventNameVariableName hk' = eventNameVariableName hk"
  by (auto simp: Leave_def Leave_try_def HandleLeave_def Let_def
           split: if_splits prod.splits option.splits)

lemma Enter_other_thread:
  assumes "t' \<noteq> t" and "Enter hk t' i n w = (hk', n', w')"
  shows "thread_view t hk' = thread_view t hk \<and>
         (t \<in> inProgressThreads hk') = (t \<in> inProgressThreads hk)"
proof (cases "hookName hk = ''sendPapyrusEvent''")
  case True
  with assms show ?thesis by (auto simp: Enter_def split: if_splits)
next
  case False
  show ?thesis
  proof (cases "t' \<in> inProgressThreads hk")
    case True
    with assms False show ?thesis by (auto simp: Enter_def Enter_try_def)
  next
    case idle: False
    obtain r hs1 n1 cs1 where
      l: "HandleEnter_loop (eventNameVariableName hk) t' i (handlers hk) n (calls w) =
            (r, hs1, n1, cs1)"
      by (cases "HandleEnter_loop (eventNameVariableName hk) t' i (handlers hk) n (calls w)") auto
    have "hk' = hk\<lparr> inProgressThreads := insert t' (inProgressThreads hk), handlers := hs1 \<rparr>"
      using assms(2) False idle l
      by (cases r) (auto simp: Enter_def Enter_try_def HandleEnter_def Let_def)
    with HandleEnter_loop_frame [OF assms(1) l] assms(1) show ?thesis
      by (auto simp: thread_view_def)
  qed
qed

lemma Leave_other_thread:
  assumes "t' \<noteq> t" and "Leave hk t' b w = (hk', w')"
  shows "thread_view t hk' = thread_view t hk \<and>
         (t \<in> inProgressThreads hk') = (t \<in> inProgressThreads hk)"
proof (cases "hookName hk = ''sendPapyrusEvent''")
  case True
  with assms show ?thesis by (auto simp: Leave_def)
next
  case False
  show ?thesis
  proof (cases "t' \<in> inProgressThreads hk")
    case False
    with assms \<open>hookName hk \<noteq> ''sendPapyrusEvent''\<close> show ?thesis
      by (auto simp: Leave_def Leave_try_def)
  next
    case busy: True
    obtain r hs1 cs1 where
      l: "HandleLeave_loop (succeededVariableName hk) t' b (handlers hk) (calls w) = (r, hs1, cs1)"
      by (cases "HandleLeave_loop (succeededVariableName hk) t' b (handlers hk) (calls w)") auto
    have "hk' = hk\<lparr> inProgressThreads := inProgressThreads hk - {t'}, handlers := hs1 \<rparr>"
      using assms(2) False busy l
      by (cases r) (auto simp: Leave_def Leave_try_def HandleLeave_def Let_def)
    with HandleLeave_loop_frame [OF assms(1) l] assms(1) show ?thesis
      by (auto simp: thread_view_def)
  qed
qed

lemma Enter_reentrant:
  assumes "hookName hk \<noteq> ''sendPapyrusEvent''" and "t \<in> inProgressThreads hk"
    and "Enter hk t i n w = (hk', n', w')"
  shows "hk' = hk"
  using assms by (auto simp: Enter_def Enter_try_def)

lemma native_call_frame:
  assumes modeA: "hookName hk \<noteq> ''sendPapyrusEvent''"
    and busy: "t \<in> inProgressThreads hk"
    and nl: "\<forall>b. c \<noteq> NativeLeave t b"
    and run: "native_call c (hk, w) = (hk', w')"
  shows "thread_view t hk' = thread_view t hk \<and> t \<in> inProgressThreads hk' \<and>
         hookName hk' = hookName hk \<and> succeededVariableName hk' = succeededVariableName hk"
proof (cases c)
  case (NativeEnter t' i n)
  obtain n1 where e: "Enter hk t' i n w = (hk', n1, w')"
    using run NativeEnter by (auto split: prod.splits)
  show ?thesis
  proof (cases "t' = t")
    case True
    with e have "Enter hk t i n w = (hk', n1, w')" by simp
    from Enter_reentrant [OF modeA busy this] busy show ?thesis by simp
  next
    case False
    with Enter_other_thread [OF False e] Enter_config [OF e] busy show ?thesis by auto
  qed
next
  case (NativeLeave t' b)
  with nl have ne: "t' \<noteq> t" by auto
  from run NativeLeave have l: "Leave hk t' b w = (hk', w')" by simp
  from Leave_other_thread [OF ne l] Leave_config [OF l] busy show ?thesis by auto
qed

lemma native_calls_frame:
  assumes "hookName hk \<noteq> ''sendPapyrusEvent''"
    and "t \<in> inProgressThreads hk"
    and "\<forall>b. NativeLeave t b \<notin> set cs"
    and "native_calls cs (hk, w) = (hk', w')"
  shows "thread_view t hk' = thread_view t hk \<and> t \<in> inProgressThreads hk' \<and>
         hookName hk' = hookName hk \<and> succeededVariableName hk' = succeededVariableName hk"
  using assms
proof (induction cs arbitrary: hk w)
  case Nil
  then show ?case by simp
next
  case (Cons c cs)
  obtain hk1 w1 where s: "native_call c (hk, w) = (hk1, w1)"
    by (cases "native_call c (hk, w)") auto
  have nl: "\<forall>b. c \<noteq> NativeLeave t b" using Cons.prems(3) by auto
  note f = native_call_frame [OF Cons.prems(1) Cons.prems(2) nl s]
  have "thread_view t hk' = thread_view t hk1 \<and> t \<in> inProgressThreads hk' \<and>
         hookName hk' = hookName hk1 \<and> succeededVariableName hk' = succeededVariableName hk1"
  proof (rule Cons.IH)
    show "hookName hk1 \<noteq> ''sendPapyrusEvent''" using f Cons.prems(1) by simp
    show "t \<in> inProgressThreads hk1" using f by simp
    show "\<forall>b. NativeLeave t b \<notin> set cs" using Cons.prems(3) by auto
    show "native_calls cs (hk1, w1) = (hk', w')" using Cons.prems(4) s by simp
  qed
  with f show ?case by simp
qed


lemma native_calls_idle:
  assumes "t \<notin> inProgressThreads hk"
    and "\<forall>i n. NativeEnter t i n \<notin> set cs"
    and "native_calls cs (hk, w) = (hk', w')"
  shows "t \<notin> inProgressThreads hk'"
  using assms
proof (induction cs arbitrary: hk w)
  case Nil
  then show ?case by simp
next
  case (Cons c cs)
  obtain hk1 w1 where s: "native_call c (hk, w) = (hk1, w1)"
    by (cases "native_call c (hk, w)") auto
  have "t \<notin> inProgressThreads hk1"
  proof (cases c)
    case (NativeEnter t' i n)
    with Cons.prems(2) have ne: "t' \<noteq> t" by auto
    obtain n1 where e: "Enter hk t' i n w = (hk1, n1, w1)"
      using s NativeEnter by (auto split: prod.splits)
    from Enter_other_thread [OF ne e] Cons.prems(1) show ?thesis by simp
  next
    case (NativeLeave t' b)
    with s have l: "Leave hk t' b w = (hk1, w1)" by simp
    show ?thesis
    proof (cases "t' = t")
      case True
      with l Cons.prems(1) show ?thesis
        by (auto simp: Leave_def Leave_try_def AddTask_def split: if_splits)
    next
      case False
      from Leave_other_thread [OF False l] Cons.prems(1) show ?thesis by simp
    qed
  qed
  moreover have "\<forall>i n. NativeEnter t i n \<notin> set cs" using Cons.prems(2) by auto
  moreover have "native_calls cs (hk1, w1) = (hk', w')" using Cons.prems(3) s by simp
  ultimately show ?case by (rule Cons.IH)
qed

text \<open>
  C2. On a hook other than the fire-and-forget one, \<open>Enter\<close> on a thread that is already
  in progress and \<open>Leave\<close> on a thread that is not change nothing in the hook, call no
  handler and leave the caller's event name alone: the call returns with one more task
  in the queue, which throws the reentrancy message (it names the hook) followed by the
  operation's annotation. A thread is in progress from its \<open>Enter\<close> on: \<open>Enter\<close> on an
  idle thread puts it in progress, and it stays so through any native calls that
  contain no \<open>Leave\<close> of that thread; \<open>Leave\<close> takes it out, and an idle thread stays
  idle through any native calls that contain no \<open>Enter\<close> of that thread.
\<close>

theorem reentrancy_redirected:
  "hookName hk \<noteq> ''sendPapyrusEvent'' \<longrightarrow>
     (t \<in> inProgressThreads hk \<longrightarrow>
        Enter hk t i n w =
          (hk, n,
           w\<lparr> g_pool_pushed := Suc (g_pool_pushed w),
              g_taskQueue := g_taskQueue w @
                [ThrowTask ([CHR 0x27] @ hookName hk @ [CHR 0x27] @ '' is already processing'' @
                            '' (while performing enter on '' @ [CHR 0x27] @ hookName hk @ [CHR 0x27] @ '')'')] \<rparr>)) \<and>
     (t \<notin> inProgressThreads hk \<longrightarrow>
        Leave hk t ok w =
          (hk,
           w\<lparr> g_pool_pushed := Suc (g_pool_pushed w),
              g_taskQueue := g_taskQueue w @
                [ThrowTask ([CHR 0x27] @ hookName hk @ [CHR 0x27] @ '' is not processing'' @
                            '' (in SendAnimationEventLeave)'')] \<rparr>)) \<and>
     (t \<notin> inProgressThreads hk \<longrightarrow>
        t \<in> inProgressThreads (fst (Enter hk t i n w)) \<and>
        hookName (fst (Enter hk t i n w)) = hookName hk) \<and>
     (t \<in> inProgressThreads hk \<longrightarrow>
        t \<notin> inProgressThreads (fst (Leave hk t ok w)) \<and>
        hookName (fst (Leave hk t ok w)) = hookName hk) \<and>
     (t \<in> inProgressThreads hk \<and> (\<forall>b. NativeLeave t b \<notin> set cs) \<longrightarrow>
        t \<in> inProgressThreads (fst (native_calls cs (hk, w))) \<and>
        hookName (fst (native_calls cs (hk, w))) = hookName hk) \<and>
     (t \<notin> inProgressThreads hk \<and> (\<forall>j m. NativeEnter t j m \<notin> set cs) \<longrightarrow>
        t \<notin> inProgressThreads (fst (native_calls cs (hk, w))))"
proof (intro impI conjI)
  assume a: "hookName hk \<noteq> ''sendPapyrusEvent''"
  show "Enter hk t i n w =
          (hk, n,
           w\<lparr> g_pool_pushed := Suc (g_pool_pushed w),
              g_taskQueue := g_taskQueue w @
                [ThrowTask ([CHR 0x27] @ hookName hk @ [CHR 0x27] @ '' is already processing'' @
                            '' (while performing enter on '' @ [CHR 0x27] @ hookName hk @ [CHR 0x27] @ '')'')] \<rparr>)"
    if "t \<in> inProgressThreads hk"
    using a that by (simp add: Enter_def Enter_try_def AddTask_def quoted_def)
  show "Leave hk t ok w =
          (hk,
           w\<lparr> g_pool_pushed := Suc (g_pool_pushed w),
              g_taskQueue := g_taskQueue w @
                [ThrowTask ([CHR 0x27] @ hookName hk @ [CHR 0x27] @ '' is not processing'' @
                            '' (in SendAnimationEventLeave)'')] \<rparr>)"
    if "t \<notin> inProgressThreads hk"
    using a that by (simp add: Leave_def Leave_try_def AddTask_def quoted_def)
  show "t \<in> inProgressThreads (fst (Enter hk t i n w))" if "t \<notin> inProgressThreads hk"
    using a that
    by (simp add: Enter_def Enter_try_def HandleEnter_def Let_def split: prod.splits option.splits)
  show "hookName (fst (Enter hk t i n w)) = hookName hk" if "t \<notin> inProgressThreads hk"
    using a that
    by (simp add: Enter_def Enter_try_def HandleEnter_def Let_def split: prod.splits option.splits)
  show "t \<notin> inProgressThreads (fst (Leave hk t ok w))" if "t \<in> inProgressThreads hk"
    using a that
    by (simp add: Leave_def Leave_try_def HandleLeave_def Let_def split: prod.splits option.splits)
  show "hookName (fst (Leave hk t ok w)) = hookName hk" if "t \<in> inProgressThreads hk"
    using a that
    by (simp add: Leave_def Leave_try_def HandleLeave_def Let_def split: prod.splits option.splits)
  show "t \<in> inProgressThreads (fst (native_calls cs (hk, w)))"
    if "t \<in> inProgressThreads hk \<and> (\<forall>b. NativeLeave t b \<notin> set cs)"
    using native_calls_frame [of hk t cs w "fst (native_calls cs (hk, w))"
            "snd (native_calls cs (hk, w))"] a that by simp
  show "hookName (fst (native_calls cs (hk, w))) = hookName hk"
    if "t \<in> inProgressThreads hk \<and> (\<forall>b. NativeLeave t b \<notin> set cs)"
    using native_calls_frame [of hk t cs w "fst (native_calls cs (hk, w))"
            "snd (native_calls cs (hk, w))"] a that by simp
  show "t \<notin> inProgressThreads (fst (native_calls cs (hk, w)))"
    if "t \<notin> inProgressThreads hk \<and> (\<forall>j m. NativeEnter t j m \<notin> set cs)"
    using native_calls_idle [of t hk cs w "fst (native_calls cs (hk, w))"
            "snd (native_calls cs (hk, w))"] that by simp
qed

theorem reentrancy_redirected_witness:
  "(case Enter ex_animation_hook 7 1 ''jump'' ex_world of
      (hk1, n1, w1) \<Rightarrow>
        g_taskQueue w1 = [] \<and>
        7 \<notin> inProgressThreads (fst (Leave hk1 7 True w1)) \<and>
        7 \<in> inProgressThreads (fst (native_calls [NativeEnter 8 1 ''jump''] (hk1, w1))) \<and>
        Enter hk1 7 2 ''run'' w1 =
          (hk1, ''run'',
           w1\<lparr> g_pool_pushed := 2,
               g_taskQueue :=
                 [ThrowTask ([CHR 0x27] @ ''sendAnimationEvent'' @ [CHR 0x27] @
                    '' is already processing (while performing enter on '' @
                    [CHR 0x27] @ ''sendAnimationEvent'' @ [CHR 0x27] @ '')'')] \<rparr>)) \<and>
   7 \<notin> inProgressThreads
         (fst (native_calls [NativeEnter 8 1 ''jump''] (ex_animation_hook, ex_world))) \<and>
   Leave ex_animation_hook 7 True ex_world =
     (ex_animation_hook,
      ex_world\<lparr> g_pool_pushed := 1,
                g_taskQueue :=
                  [ThrowTask ([CHR 0x27] @ ''sendAnimationEvent'' @ [CHR 0x27] @
                     '' is not processing (in SendAnimationEventLeave)'')] \<rparr>)"
proof -
  obtain hk1 n1 w1 where e: "Enter ex_animation_hook 7 1 ''jump'' ex_world = (hk1, n1, w1)"
    by (cases "Enter ex_animation_hook 7 1 ''jump'' ex_world")
  have nm: "hookName ex_animation_hook \<noteq> ''sendPapyrusEvent''"
    and idle: "7 \<notin> inProgressThreads ex_animation_hook"
    and nm': "hookName ex_animation_hook = ''sendAnimationEvent''"
    by (simp_all add: ex_animation_hook_def EventsGlobalState_new_def Hook_new_def)
  let ?cs = "[NativeEnter 8 1 ''jump'']"
  note r0 = reentrancy_redirected [of ex_animation_hook 7 1 "''jump''" ex_world True ?cs,
              THEN mp, OF nm]
  have in1: "7 \<in> inProgressThreads hk1" and nm1: "hookName hk1 = ''sendAnimationEvent''"
    using r0 [THEN conjunct2, THEN conjunct2, THEN conjunct1, THEN mp, OF idle] e nm'
    by simp_all
  have w1: "g_taskQueue w1 = []" "g_pool_pushed w1 = 1"
    using e
    by (auto simp: Enter_def Enter_try_def HandleEnter_def ex_animation_hook_def
          EventsGlobalState_new_def Hook_new_def ex_world_def)
  have nm1': "hookName hk1 \<noteq> ''sendPapyrusEvent''" using nm1 by simp
  note r1 = reentrancy_redirected [of hk1 7 2 "''run''" w1 True ?cs, THEN mp, OF nm1']
  have second: "Enter hk1 7 2 ''run'' w1 =
          (hk1, ''run'',
           w1\<lparr> g_pool_pushed := 2,
               g_taskQueue :=
                 [ThrowTask ([CHR 0x27] @ ''sendAnimationEvent'' @ [CHR 0x27] @
                    '' is already processing (while performing enter on '' @
                    [CHR 0x27] @ ''sendAnimationEvent'' @ [CHR 0x27] @ '')'')] \<rparr>)"
    using r1 [THEN conjunct1, THEN mp, OF in1] nm1 w1 by simp
  have out: "7 \<notin> inProgressThreads (fst (Leave hk1 7 True w1))"
    using r1 [THEN conjunct2, THEN conjunct2, THEN conjunct2, THEN conjunct1, THEN mp, OF in1]
    by simp
  have quiet: "\<forall>b. NativeLeave 7 b \<notin> set ?cs" and quiet': "\<forall>j m. NativeEnter 7 j m \<notin> set ?cs"
    by simp_all
  have stays: "7 \<in> inProgressThreads (fst (native_calls ?cs (hk1, w1)))"
    using r1 [THEN conjunct2, THEN conjunct2, THEN conjunct2, THEN conjunct2, THEN conjunct1,
              THEN mp, OF conjI, OF in1 quiet]
    by simp
  have stays_out: "7 \<notin> inProgressThreads (fst (native_calls ?cs (ex_animation_hook, ex_world)))"
    using r0 [THEN conjunct2, THEN conjunct2, THEN conjunct2, THEN conjunct2, THEN conjunct2,
              THEN mp, OF conjI, OF idle quiet']
    by simp
  have lv: "Leave ex_animation_hook 7 True ex_world =
     (ex_animation_hook,
      ex_world\<lparr> g_pool_pushed := 1,
                g_taskQueue :=
                  [ThrowTask ([CHR 0x27] @ ''sendAnimationEvent'' @ [CHR 0x27] @
                     '' is not processing (in SendAnimationEventLeave)'')] \<rparr>)"
    using r0 [THEN conjunct2, THEN conjunct1, THEN mp, OF idle] nm'
    by (simp add: ex_world_def)
  show ?thesis using e w1 second out stays stays_out lv by simp
qed

lemma Matches_perThread_update [simp]:
  "Matches (h\<lparr> perThread := p \<rparr>) i n = Matches h i n"
  by (simp add: Matches_def)

lemma anyMatch_iff: "anyMatch hs i n = (\<exists>h \<in> set hs. Matches h i n)"
  by (induction hs) auto

text \<open>
  C8. On the fire-and-forget hook \<open>Enter\<close> returns the hook and the event name as they
  were. When no handler's filter matches, the world is unchanged too: nothing is queued
  and nothing pushed to the pool. When one matches, exactly one task is appended to the
  queue and still nothing is pushed to the pool. The decision does not depend on the
  handlers' per-thread maps.
\<close>

theorem fire_and_forget_Enter:
  "hookName hk = ''sendPapyrusEvent'' \<longrightarrow>
     ((\<forall>h \<in> set (handlers hk). \<not> Matches h i n) \<longrightarrow> Enter hk t i n w = (hk, n, w)) \<and>
     ((\<exists>h \<in> set (handlers hk). Matches h i n) \<longrightarrow>
        Enter hk t i n w =
          (hk, n, w\<lparr> g_taskQueue := g_taskQueue w @ [EnterTask t i n] \<rparr>)) \<and>
     (\<forall>p. Enter (hk\<lparr> handlers := map (\<lambda>h. h\<lparr> perThread := p h \<rparr>) (handlers hk) \<rparr>) t i n w =
          (hk\<lparr> handlers := map (\<lambda>h. h\<lparr> perThread := p h \<rparr>) (handlers hk) \<rparr>, n,
           snd (snd (Enter hk t i n w))))"
  by (auto simp: Enter_def anyMatch_iff AddTask_def)

theorem fire_and_forget_Enter_witness:
  "Enter ex_papyrus_hook 3 4 ''OnHit'' ex_world = (ex_papyrus_hook, ''OnHit'', ex_world) \<and>
   Enter ex_papyrus_hook 3 7 ''OnHit'' ex_world =
     (ex_papyrus_hook, ''OnHit'', ex_world\<lparr> g_taskQueue := [EnterTask 3 7 ''OnHit''] \<rparr>)"
proof -
  have nm: "hookName ex_papyrus_hook = ''sendPapyrusEvent''"
    and hs: "handlers ex_papyrus_hook =
       [Handler_new ex_object (Some (Finite 5)) (Some (Finite 10))
          (Some \<lparr> type = StartsWith, str = ''On'' \<rparr>)]"
    by (simp_all add: ex_papyrus_hook_def EventsGlobalState_new_def Hook_new_def AddHandler_def)
  have no: "\<forall>h \<in> set (handlers ex_papyrus_hook). \<not> Matches h 4 ''OnHit''"
    by (simp add: hs Matches_def Handler_new_def)
  have yes: "\<exists>h \<in> set (handlers ex_papyrus_hook). Matches h 7 ''OnHit''"
    by (simp add: hs Matches_def Handler_new_def Pattern_matches_def memcmp_eq_def)
  have "Enter ex_papyrus_hook 3 4 ''OnHit'' ex_world = (ex_papyrus_hook, ''OnHit'', ex_world)"
    by (rule fire_and_forget_Enter [of ex_papyrus_hook 4 "''OnHit''" 3 ex_world,
              THEN mp, OF nm, THEN conjunct1, THEN mp, OF no])
  moreover have "Enter ex_papyrus_hook 3 7 ''OnHit'' ex_world =
     (ex_papyrus_hook, ''OnHit'', ex_world\<lparr> g_taskQueue := [EnterTask 3 7 ''OnHit''] \<rparr>)"
    using fire_and_forget_Enter [of ex_papyrus_hook 7 "''OnHit''" 3 ex_world,
              THEN mp, OF nm, THEN conjunct2, THEN conjunct1, THEN mp, OF yes]
    by (simp add: ex_world_def)
  ultimately show ?thesis by simp
qed

lemma PrepareContext_Some:
  "\<exists>c s. context' (PrepareContext p) = Some c \<and> storage (PrepareContext p) = Some s \<and>
         matchesCondition (PrepareContext p) = matchesCondition p"
  by (cases "context' p"; cases "storage p") (simp_all add: PrepareContext_def)

lemma PrepareContext_storage_kept:
  "storage p = Some s \<Longrightarrow> storage (PrepareContext p) = Some s"
  by (cases "context' p") (simp_all add: PrepareContext_def)

lemma enter_handler_unmatched:
  "\<not> Matches h i n \<Longrightarrow>
   enter_handler v t i h n cs =
     (None,
      h\<lparr> perThread := (perThread h)(t \<mapsto>
            (case perThread h t of None \<Rightarrow> PerThread_default | Some p \<Rightarrow> p)
              \<lparr> matchesCondition := False \<rparr>) \<rparr>, n, cs)"
  by (simp add: enter_handler_def Let_def)

lemma enter_handler_matched:
  assumes "Matches h i n"
  shows "\<exists>c. GetProperty c v = JsString n \<and>
     enter_handler v t i h n cs =
       (case enter h (c, Map.empty) of
          (r, c2, s2) \<Rightarrow>
            (let h' = h\<lparr> perThread := (perThread h)(t \<mapsto>
                        \<lparr> storage = Some s2, context' = Some c2, matchesCondition = True \<rparr>) \<rparr>;
                 cs' = cs @ [EnterCall c Map.empty]
             in case r of
                  Some m \<Rightarrow> (Some (JsException m), h', n, cs')
                | None \<Rightarrow>
                    (case js_to_string (GetProperty c2 v) of
                       Inl e \<Rightarrow> (Some e, h', n, cs')
                     | Inr n' \<Rightarrow> (None, h', n', cs'))))"
proof -
  define pt1 where "pt1 = (case perThread h t of None \<Rightarrow> PerThread_default | Some p \<Rightarrow> p)
                            \<lparr> matchesCondition := True \<rparr>"
  obtain c0 s0 where p: "context' (PrepareContext pt1) = Some c0"
    "storage (PrepareContext pt1) = Some s0" "matchesCondition (PrepareContext pt1) = True"
    using PrepareContext_Some [of pt1] by (auto simp: pt1_def)
  define c where "c = c0(''selfId'' \<mapsto> JsNumber (Finite (real (unat i))), v \<mapsto> JsString n)"
  have g: "GetProperty c v = JsString n" by (simp add: c_def GetProperty_def)
  have "enter_handler v t i h n cs =
       (case enter h (c, Map.empty) of
          (r, c2, s2) \<Rightarrow>
            (let h' = h\<lparr> perThread := (perThread h)(t \<mapsto>
                        \<lparr> storage = Some s2, context' = Some c2, matchesCondition = True \<rparr>) \<rparr>;
                 cs' = cs @ [EnterCall c Map.empty]
             in case r of
                  Some m \<Rightarrow> (Some (JsException m), h', n, cs')
                | None \<Rightarrow>
                    (case js_to_string (GetProperty c2 v) of
                       Inl e \<Rightarrow> (Some e, h', n, cs')
                     | Inr n' \<Rightarrow> (None, h', n', cs'))))"
    using assms p
    by (cases "PrepareContext pt1")
       (simp add: enter_handler_def Let_def pt1_def [symmetric] ClearContextStorage_def c_def
             split: prod.splits option.splits sum.splits)
  with g show ?thesis by blast
qed

lemma HandleEnter_loop_append:
  "HandleEnter_loop v t i (pre @ post) n cs =
     (case HandleEnter_loop v t i pre n cs of
        (Some e, pre', n1, cs1) \<Rightarrow> (Some e, pre' @ post, n1, cs1)
      | (None, pre', n1, cs1) \<Rightarrow>
          (case HandleEnter_loop v t i post n1 cs1 of
             (r, post', n2, cs2) \<Rightarrow> (r, pre' @ post', n2, cs2)))"
  by (induction pre arbitrary: n cs) (auto split: prod.splits option.splits)

lemma HandleEnter_loop_no_match:
  "\<forall>g \<in> set hs. \<not> Matches g i n \<Longrightarrow>
   \<exists>hs'. HandleEnter_loop v t i hs n cs = (None, hs', n, cs)"
  by (induction hs) (auto simp: enter_handler_unmatched)


text \<open>
  C1. On a hook other than the fire-and-forget one, entered on an idle thread: let the
  handlers before \<open>h\<close> run without raising and leave the event name \<open>n1\<close>, let \<open>h\<close>
  match, and let its enter callback, given the name \<open>n1\<close>, return with the event-name
  property rewritten to \<open>n2\<close>. Then the handlers registered after \<open>h\<close> are run on
  \<open>n2\<close>: the name and the script calls that \<open>Enter\<close> returns are those of the loop over
  these handlers started with \<open>n2\<close>, right after the call of \<open>h\<close> (whose context held
  \<open>n1\<close>). When none of them matches \<open>n2\<close>, the caller's event name is \<open>n2\<close>.
\<close>

theorem rewritten_name_propagates:
  assumes modeA: "hookName hk \<noteq> ''sendPapyrusEvent''"
    and idle: "t \<notin> inProgressThreads hk"
    and hs: "handlers hk = pre @ h # post"
    and pre: "HandleEnter_loop (eventNameVariableName hk) t i pre n0 (calls w) =
                (None, pre', n1, cs1)"
    and m: "Matches h i n1"
    and rw: "\<forall>c s. GetProperty c (eventNameVariableName hk) = JsString n1 \<longrightarrow>
               (\<exists>c' s'. enter h (c, s) = (None, c', s') \<and>
                        GetProperty c' (eventNameVariableName hk) = JsString n2)"
  shows "\<exists>c s. GetProperty c (eventNameVariableName hk) = JsString n1 \<and>
           (case HandleEnter_loop (eventNameVariableName hk) t i post n2
                   (cs1 @ [EnterCall c s]) of
              (r, post', nF, csF) \<Rightarrow>
                fst (snd (Enter hk t i n0 w)) = nF \<and>
                calls (snd (snd (Enter hk t i n0 w))) = csF) \<and>
           ((\<forall>g \<in> set post. \<not> Matches g i n2) \<longrightarrow> fst (snd (Enter hk t i n0 w)) = n2)"
proof -
  let ?v = "eventNameVariableName hk"
  obtain c where c: "GetProperty c ?v = JsString n1"
    and eh: "enter_handler ?v t i h n1 cs1 =
       (case enter h (c, Map.empty) of
          (r, c2, s2) \<Rightarrow>
            (let h' = h\<lparr> perThread := (perThread h)(t \<mapsto>
                        \<lparr> storage = Some s2, context' = Some c2, matchesCondition = True \<rparr>) \<rparr>;
                 cs' = cs1 @ [EnterCall c Map.empty]
             in case r of
                  Some m \<Rightarrow> (Some (JsException m), h', n1, cs')
                | None \<Rightarrow>
                    (case js_to_string (GetProperty c2 ?v) of
                       Inl e \<Rightarrow> (Some e, h', n1, cs')
                     | Inr n' \<Rightarrow> (None, h', n', cs'))))"
    using enter_handler_matched [OF m, of ?v t cs1] by blast
  obtain c' s' where cb: "enter h (c, Map.empty) = (None, c', s')"
    and c': "GetProperty c' ?v = JsString n2"
    using rw c by blast
  define h' where "h' = h\<lparr> perThread := (perThread h)(t \<mapsto>
                        \<lparr> storage = Some s', context' = Some c', matchesCondition = True \<rparr>) \<rparr>"
  have eh': "enter_handler ?v t i h n1 cs1 = (None, h', n2, cs1 @ [EnterCall c Map.empty])"
    by (simp add: eh cb c' h'_def)
  obtain r post' nF csF where
    po: "HandleEnter_loop ?v t i post n2 (cs1 @ [EnterCall c Map.empty]) = (r, post', nF, csF)"
    by (cases "HandleEnter_loop ?v t i post n2 (cs1 @ [EnterCall c Map.empty])") auto
  have loop: "HandleEnter_loop ?v t i (pre @ h # post) n0 (calls w) =
                (r, pre' @ h' # post', nF, csF)"
    by (simp add: HandleEnter_loop_append pre eh' po)
  have en: "fst (snd (Enter hk t i n0 w)) = nF \<and> calls (snd (snd (Enter hk t i n0 w))) = csF"
    using modeA idle loop hs
    by (simp add: Enter_def Enter_try_def HandleEnter_def AddTask_def Let_def
          split: option.splits)
  have last: "fst (snd (Enter hk t i n0 w)) = n2" if "\<forall>g \<in> set post. \<not> Matches g i n2"
    using HandleEnter_loop_no_match [OF that, of ?v t "cs1 @ [EnterCall c Map.empty]"] po en
    by auto
  show ?thesis
    using c po en last by (intro exI [of _ c] exI [of _ Map.empty]) simp
qed

theorem rewritten_name_propagates_witness:
  "fst (snd (Enter ex_rewrite_hook 1 7 ''a'' ex_world)) = ''c'' \<and>
   (\<exists>c s. GetProperty c ''animEventName'' = JsString ''a'' \<and>
      (case HandleEnter_loop ''animEventName'' 1 7 [ex_rewrite_second, ex_rewrite_third] ''b''
              [EnterCall c s] of
         (r, post', nF, csF) \<Rightarrow>
           nF = ''c'' \<and> calls (snd (snd (Enter ex_rewrite_hook 1 7 ''a'' ex_world))) = csF))"
proof -
  let ?v = "''animEventName''"
  have cfg: "hookName ex_rewrite_hook \<noteq> ''sendPapyrusEvent''"
    "1 \<notin> inProgressThreads ex_rewrite_hook"
    "eventNameVariableName ex_rewrite_hook = ?v"
    by (simp_all add: ex_rewrite_hook_def ex_animation_hook_def EventsGlobalState_new_def
          Hook_new_def AddHandler_def)
  have hsA: "handlers ex_rewrite_hook =
               [] @ ex_rewrite_first # [ex_rewrite_second, ex_rewrite_third]"
    and hsB: "handlers ex_rewrite_hook =
               [ex_rewrite_first] @ ex_rewrite_second # [ex_rewrite_third]"
    by (simp_all add: ex_rewrite_hook_def ex_animation_hook_def EventsGlobalState_new_def
          Hook_new_def AddHandler_def)
  have m1: "Matches ex_rewrite_first 7 ''a''"
    by (simp add: Matches_def ex_rewrite_first_def Handler_new_def)
  have m2: "Matches ex_rewrite_second 7 ''b''"
    by (simp add: Matches_def ex_rewrite_second_def Handler_new_def Pattern_matches_def)
  have m3: "\<forall>g \<in> set [ex_rewrite_third]. \<not> Matches g 7 ''c''"
    by (simp add: Matches_def ex_rewrite_third_def Handler_new_def Pattern_matches_def)
  have rw1: "\<forall>c s. GetProperty c (eventNameVariableName ex_rewrite_hook) = JsString ''a'' \<longrightarrow>
               (\<exists>c' s'. enter ex_rewrite_first (c, s) = (None, c', s') \<and>
                  GetProperty c' (eventNameVariableName ex_rewrite_hook) = JsString ''b'')"
    by (simp add: cfg ex_rewrite_first_def Handler_new_def rename_to_def GetProperty_def)
  have rw2: "\<forall>c s. GetProperty c (eventNameVariableName ex_rewrite_hook) = JsString ''b'' \<longrightarrow>
               (\<exists>c' s'. enter ex_rewrite_second (c, s) = (None, c', s') \<and>
                  GetProperty c' (eventNameVariableName ex_rewrite_hook) = JsString ''c'')"
    by (simp add: cfg ex_rewrite_second_def Handler_new_def rename_to_def GetProperty_def)
  have preA: "HandleEnter_loop (eventNameVariableName ex_rewrite_hook) 1 7 [] ''a''
                (calls ex_world) = (None, [], ''a'', [])"
    by (simp add: ex_world_def)
  obtain c0 where
    "enter_handler ?v 1 7 ex_rewrite_first ''a'' [] =
       (case enter ex_rewrite_first (c0, Map.empty) of
          (r, c2, s2) \<Rightarrow>
            (let h' = ex_rewrite_first\<lparr> perThread := (perThread ex_rewrite_first)(1 \<mapsto>
                        \<lparr> storage = Some s2, context' = Some c2, matchesCondition = True \<rparr>) \<rparr>;
                 cs' = [] @ [EnterCall c0 Map.empty]
             in case r of
                  Some m \<Rightarrow> (Some (JsException m), h', ''a'', cs')
                | None \<Rightarrow>
                    (case js_to_string (GetProperty c2 ?v) of
                       Inl e \<Rightarrow> (Some e, h', ''a'', cs')
                     | Inr n' \<Rightarrow> (None, h', n', cs'))))"
    using enter_handler_matched [OF m1, of ?v 1 "[]"] by blast
  then have "\<exists>h'. enter_handler ?v 1 7 ex_rewrite_first ''a'' [] =
               (None, h', ''b'', [EnterCall c0 Map.empty])"
    by (simp add: ex_rewrite_first_def Handler_new_def rename_to_def GetProperty_def)
  then obtain h1 where
    "enter_handler ?v 1 7 ex_rewrite_first ''a'' [] = (None, h1, ''b'', [EnterCall c0 Map.empty])"
    by (elim exE)
  then have preB: "HandleEnter_loop (eventNameVariableName ex_rewrite_hook) 1 7
                     [ex_rewrite_first] ''a'' (calls ex_world) =
                     (None, [h1], ''b'', [EnterCall c0 Map.empty])"
    by (simp add: cfg ex_world_def)
  have final: "fst (snd (Enter ex_rewrite_hook 1 7 ''a'' ex_world)) = ''c''"
    using rewritten_name_propagates [OF cfg(1) cfg(2) hsB preB m2 rw2] m3 by blast
  obtain c s where
    c: "GetProperty c (eventNameVariableName ex_rewrite_hook) = JsString ''a''"
    and run: "case HandleEnter_loop (eventNameVariableName ex_rewrite_hook) 1 7
                     [ex_rewrite_second, ex_rewrite_third] ''b'' ([] @ [EnterCall c s]) of
            (r, post', nF, csF) \<Rightarrow>
              fst (snd (Enter ex_rewrite_hook 1 7 ''a'' ex_world)) = nF \<and>
              calls (snd (snd (Enter ex_rewrite_hook 1 7 ''a'' ex_world))) = csF"
    using rewritten_name_propagates [OF cfg(1) cfg(2) hsA preA m1 rw1]
    by (elim exE conjE) (rule that)
  obtain r post' nF csF where
    l: "HandleEnter_loop ?v 1 7 [ex_rewrite_second, ex_rewrite_third] ''b'' [EnterCall c s] =
          (r, post', nF, csF)"
    by (cases "HandleEnter_loop ?v 1 7 [ex_rewrite_second, ex_rewrite_third] ''b''
                 [EnterCall c s]") auto
  have k: "case HandleEnter_loop ?v 1 7 [ex_rewrite_second, ex_rewrite_third] ''b''
               [EnterCall c s] of
          (r, post', nF, csF) \<Rightarrow>
            nF = ''c'' \<and> calls (snd (snd (Enter ex_rewrite_hook 1 7 ''a'' ex_world))) = csF"
    using run final unfolding cfg(3) append_Nil l by simp
  show ?thesis
  proof (intro conjI exI)
    show "fst (snd (Enter ex_rewrite_hook 1 7 ''a'' ex_world)) = ''c''" by (rule final)
    show "GetProperty c ''animEventName'' = JsString ''a''" using c by (simp add: cfg)
    show "case HandleEnter_loop ?v 1 7 [ex_rewrite_second, ex_rewrite_third] ''b''
               [EnterCall c s] of
          (r, post', nF, csF) \<Rightarrow>
            nF = ''c'' \<and> calls (snd (snd (Enter ex_rewrite_hook 1 7 ''a'' ex_world))) = csF"
      by (rule k)
  qed
qed














lemmas ex_hook_defs =
  ex_animation_hook_def EventsGlobalState_new_def Hook_new_def AddHandler_def Handler_new_def
  ex_world_def ex_object_def keep_def

lemmas engine_defs =
  Enter_def Enter_try_def HandleEnter_def Leave_def Leave_try_def HandleLeave_def
  enter_handler_def leave_handler_def PrepareContext_def ClearContextStorage_def
  Matches_def Pattern_matches_def PerThread_default_def AddTask_def GetProperty_def Let_def


text \<open>
  C4. The per-thread entry of a handler is created by \<open>Enter\<close> and, for a handler that
  matched and whose leave callback returned, removed by \<open>Leave\<close>. For a handler whose
  filter did not match,
  \<open>HandleLeave\<close> skips the whole loop body, the removal included: on a
  hook with one handler for the name \<^verbatim>\<open>foo\<close>, after \<open>Enter\<close> with the name \<^verbatim>\<open>bar\<close> and
  the matching \<open>Leave\<close> on thread 1, both completed without error, the handler still
  holds an entry for thread 1, which it did not hold before.
\<close>

theorem unmatched_entry_survives_Leave:
  "case Enter ex_unmatched_hook 1 7 ''bar'' ex_world of
     (hk1, nF, w1) \<Rightarrow>
       (case Leave hk1 1 True w1 of
          (hk2, w2) \<Rightarrow>
            perThread (hd (handlers ex_unmatched_hook)) 1 = None \<and>
            perThread (hd (handlers hk2)) 1 = Some PerThread_default \<and>
            1 \<notin> inProgressThreads hk2 \<and>
            g_taskQueue w2 = [] \<and> calls w2 = [])"
  by (simp add: ex_unmatched_hook_def ex_hook_defs engine_defs)

section \<open>Properties of the callback registry\<close>

text \<open>
  C3, as stated, fails. With one persistent callback for \<^verbatim>\<open>tick\<close> that registers a
  one-shot callback (number 2) for \<^verbatim>\<open>tick\<close>, and no one-shot callback registered when
  \<open>SendEvent\<close> is called, \<open>SendEvent\<close> invokes callback 1 and then callback 2: the
  one-shot list is copied and cleared only after the persistent callbacks have run. A
  dispatch that copied both lists first would invoke callback 1 alone.
\<close>

theorem SendEvent_snapshot_counterexample:
  "at_key (callbacks ex_registry) ''tick'' = [ex_registrar] \<and>
   at_key (callbacksOnce ex_registry) ''tick'' = [] \<and>
   snd (snd (SendEvent ''tick'' [] (ex_registry, []))) = [(1, []), (2, [])] \<and>
   snd (snd (SendEvent_as_specified ''tick'' [] (ex_registry, []))) = [(1, [])]"
  by (simp add: ex_registry_def ex_registrar_def EventsGlobalState_new_def at_key_def
        SendEvent_def SendEvent_as_specified_def CallCalbacks_def Call_callback_def
        Once_def On_def AddCallback_def events_def)


lemma at_key_upd:
  "at_key (m(k \<mapsto> v)) n = (if n = k then v else at_key m n)"
  by (simp add: at_key_def)

lemma AddCallback_once:
  "AddCallback k c isOnce g = Inr g1 \<Longrightarrow>
   at_key (callbacksOnce g1) n =
     at_key (callbacksOnce g) n @ (if isOnce \<and> k = n then [c] else [])"
  by (cases "k \<in> events"; cases isOnce) (auto simp: AddCallback_def at_key_upd)

lemma run_body_once:
  "run_body as g = (None, g') \<Longrightarrow>
   at_key (callbacksOnce g') n = at_key (callbacksOnce g) n @ concat (map (once_of n) as)"
proof (induction as g arbitrary: g' rule: run_body.induct)
  case (1 g)
  then show ?case by simp
next
  case (2 m as g)
  then show ?case by simp
next
  case (3 k c as g)
  show ?case
  proof (cases "On k c g")
    case (Inl e)
    with 3 show ?thesis by simp
  next
    case (Inr g1)
    with 3 have "run_body as g1 = (None, g')" by simp
    from 3(1) [OF Inr this] AddCallback_once [OF Inr [unfolded On_def], of n]
    show ?thesis by simp
  qed
next
  case (4 k c as g)
  show ?case
  proof (cases "Once k c g")
    case (Inl e)
    with 4 show ?thesis by simp
  next
    case (Inr g1)
    with 4 have "run_body as g1 = (None, g')" by simp
    from 4(1) [OF Inr this] AddCallback_once [OF Inr [unfolded Once_def], of n]
    show ?thesis by simp
  qed
qed

lemma Call_callback_once:
  "Call_callback f args (g, ivs) = (None, g', ivs') \<Longrightarrow>
   ivs' = ivs @ [(cb_id f, args)] \<and>
   at_key (callbacksOnce g') n = at_key (callbacksOnce g) n @ registers_once n f"
  by (auto simp: Call_callback_def registers_once_def split: prod.splits dest: run_body_once)

lemma call_each_once:
  "call_each fs args (g, ivs) = (None, g', ivs') \<Longrightarrow>
   ivs' = ivs @ map (\<lambda>f. (cb_id f, args)) fs \<and>
   at_key (callbacksOnce g') n =
     at_key (callbacksOnce g) n @ concat (map (registers_once n) fs)"
proof (induction fs arbitrary: g ivs)
  case Nil
  then show ?case by simp
next
  case (Cons f fs)
  obtain r g1 ivs1 where c: "Call_callback f args (g, ivs) = (r, g1, ivs1)"
    by (cases "Call_callback f args (g, ivs)") auto
  with Cons.prems have r: "r = None" by (cases r) auto
  with c Cons.prems have rest: "call_each fs args (g1, ivs1) = (None, g', ivs')" by simp
  from Call_callback_once [OF c [unfolded r], of n] Cons.IH [OF rest]
  show ?case by simp
qed

text \<open>
  C3, amended. A \<open>SendEvent\<close> in which no callback throws invokes, each with the given
  arguments and in this order, the persistent callbacks for the name as listed when
  \<open>SendEvent\<close> was called, then the one-shot callbacks for the name as listed once the
  persistent callbacks have run: those listed at the call followed by those the
  persistent callbacks registered once under the name. The live one-shot list for the
  name holds afterwards exactly what the invoked one-shot callbacks registered once
  under the name: it was emptied before the first of them ran, and what they registered
  was not invoked in this pass.
\<close>

theorem SendEvent_two_passes:
  assumes "SendEvent eventName arguments (g, ivs) = (None, g', ivs')"
  shows "ivs' = ivs @ map (\<lambda>f. (cb_id f, arguments))
                     (at_key (callbacks g) eventName @
                      (at_key (callbacksOnce g) eventName @
                       concat (map (registers_once eventName) (at_key (callbacks g) eventName)))) \<and>
         at_key (callbacksOnce g') eventName =
           concat (map (registers_once eventName)
             (at_key (callbacksOnce g) eventName @
              concat (map (registers_once eventName) (at_key (callbacks g) eventName))))"
proof -
  let ?P = "at_key (callbacks g) eventName"
  obtain r g1 ivs1 where p1: "call_each ?P arguments (g, ivs) = (r, g1, ivs1)"
    by (cases "call_each ?P arguments (g, ivs)") auto
  have r: "r = None"
    using assms p1 by (cases r) (auto simp: SendEvent_def CallCalbacks_def)
  let ?O = "at_key (callbacksOnce g1) eventName"
  have p2: "call_each ?O arguments
              (g1\<lparr> callbacksOnce := (callbacksOnce g1)(eventName \<mapsto> []) \<rparr>, ivs1) =
              (None, g', ivs')"
    using assms p1 r by (simp add: SendEvent_def CallCalbacks_def)
  from call_each_once [OF p1 [unfolded r], of eventName]
  have a: "ivs1 = ivs @ map (\<lambda>f. (cb_id f, arguments)) ?P"
    and b: "?O = at_key (callbacksOnce g) eventName @ concat (map (registers_once eventName) ?P)"
    by simp_all
  from call_each_once [OF p2, of eventName]
  have c: "ivs' = ivs1 @ map (\<lambda>f. (cb_id f, arguments)) ?O"
    and d: "at_key (callbacksOnce g') eventName = concat (map (registers_once eventName) ?O)"
    by (simp_all add: at_key_upd)
  show ?thesis using a b c d by simp
qed

theorem SendEvent_two_passes_witness:
  "SendEvent ''tick'' [] (ex_registry, []) =
     (None, ex_registry\<lparr> callbacksOnce := [''tick'' \<mapsto> []] \<rparr>, [(1, []), (2, [])])"
proof -
  have tick: "''tick'' \<in> events" by (simp add: events_def)
  have run: "SendEvent ''tick'' [] (ex_registry, []) =
     (None, ex_registry\<lparr> callbacksOnce := [''tick'' \<mapsto> []] \<rparr>,
      snd (snd (SendEvent ''tick'' [] (ex_registry, []))))"
    using tick
    by (simp add: ex_registry_def ex_registrar_def EventsGlobalState_new_def at_key_def
          SendEvent_def CallCalbacks_def Call_callback_def Once_def On_def AddCallback_def)
  from SendEvent_two_passes [OF run]
  have "snd (snd (SendEvent ''tick'' [] (ex_registry, []))) = [(1, []), (2, [])]"
    by (simp add: ex_registry_def ex_registrar_def EventsGlobalState_new_def at_key_def
          registers_once_def)
  with run show ?thesis by simp
qed

text \<open>
  C10. \<open>SendEvent\<close> does not look at the name it is given: for any name with no callback
  in either list (the key absent, or its vector empty) it returns without an error and
  invokes nothing; the only change is that the one-shot map now has the name with an
  empty vector. This holds also for names outside \<open>events\<close>, which \<open>On\<close> and \<open>Once\<close>
  reject.
\<close>

theorem SendEvent_unregistered:
  assumes "at_key (callbacks g) eventName = []" and "at_key (callbacksOnce g) eventName = []"
  shows "SendEvent eventName arguments (g, ivs) =
           (None, g\<lparr> callbacksOnce := (callbacksOnce g)(eventName \<mapsto> []) \<rparr>, ivs) \<and>
         (eventName \<notin> events \<longrightarrow>
            On eventName f g = Inl (InvalidArgumentException ''eventName'' eventName) \<and>
            Once eventName f g = Inl (InvalidArgumentException ''eventName'' eventName))"
  using assms by (simp add: SendEvent_def CallCalbacks_def On_def Once_def AddCallback_def)


theorem SendEvent_unregistered_witness:
  "SendEvent ''bogus'' [JsBool True] (ex_registry, [(9, [])]) =
     (None, ex_registry\<lparr> callbacksOnce := [''bogus'' \<mapsto> []] \<rparr>, [(9, [])]) \<and>
   On ''bogus'' ex_registrar ex_registry = Inl (InvalidArgumentException ''eventName'' ''bogus'') \<and>
   Once ''bogus'' ex_registrar ex_registry = Inl (InvalidArgumentException ''eventName'' ''bogus'')"
proof -
  have a: "at_key (callbacks ex_registry) ''bogus'' = []"
    and b: "at_key (callbacksOnce ex_registry) ''bogus'' = []"
    by (simp_all add: ex_registry_def EventsGlobalState_new_def at_key_def)
  have c: "''bogus'' \<notin> events" by (simp add: events_def)
  note t = SendEvent_unregistered [OF a b, of "[JsBool True]" "[(9, [])]" ex_registrar]
  from t [THEN conjunct1] t [THEN conjunct2, THEN mp, OF c]
  show ?thesis by (simp add: ex_registry_def EventsGlobalState_new_def)
qed

lemma ids_upd:
  "(\<Union>fs \<in> ran (m(k \<mapsto> at_key m k @ [c])). \<Union>f \<in> set fs. callback_ids f) \<subseteq>
   (\<Union>fs \<in> ran m. \<Union>f \<in> set fs. callback_ids f) \<union> callback_ids c"
proof
  fix x
  assume "x \<in> (\<Union>fs \<in> ran (m(k \<mapsto> at_key m k @ [c])). \<Union>f \<in> set fs. callback_ids f)"
  then obtain fs f where fs: "fs \<in> ran (m(k \<mapsto> at_key m k @ [c]))" and f: "f \<in> set fs"
    and x: "x \<in> callback_ids f" by blast
  from fs obtain j where j: "(m(k \<mapsto> at_key m k @ [c])) j = Some fs" by (auto simp: ran_def)
  show "x \<in> (\<Union>fs \<in> ran m. \<Union>f \<in> set fs. callback_ids f) \<union> callback_ids c"
  proof (cases "j = k")
    case True
    with j have "fs = at_key m k @ [c]" by simp
    with f have "f = c \<or> f \<in> set (at_key m k)" by auto
    then show ?thesis
    proof
      assume "f = c" with x show ?thesis by simp
    next
      assume a: "f \<in> set (at_key m k)"
      then obtain v where "m k = Some v" "f \<in> set v"
        by (cases "m k") (auto simp: at_key_def)
      then have "v \<in> ran m" by (auto simp: ran_def)
      with \<open>f \<in> set v\<close> x show ?thesis by blast
    qed
  next
    case False
    with j have "m j = Some fs" by simp
    then have "fs \<in> ran m" by (auto simp: ran_def)
    with f x show ?thesis by blast
  qed
qed

lemma AddCallback_known:
  assumes "AddCallback k c isOnce g = Inr g1"
  shows "known g1 \<subseteq> known g \<union> callback_ids c"
proof (cases isOnce)
  case True
  with assms have g1: "g1 = g\<lparr> callbacksOnce :=
      (callbacksOnce g)(k \<mapsto> at_key (callbacksOnce g) k @ [c]) \<rparr>"
    by (cases "k \<in> events") (simp_all add: AddCallback_def)
  show ?thesis
    unfolding known_def g1 using ids_upd [of "callbacksOnce g" k c] by auto
next
  case False
  with assms have g1: "g1 = g\<lparr> callbacks :=
      (callbacks g)(k \<mapsto> at_key (callbacks g) k @ [c]) \<rparr>"
    by (cases "k \<in> events") (simp_all add: AddCallback_def)
  show ?thesis
    unfolding known_def g1 using ids_upd [of "callbacks g" k c] by auto
qed

lemma run_body_known:
  "run_body as g = (r, g') \<Longrightarrow> known g' \<subseteq> known g \<union> action_ids as"
proof (induction as g arbitrary: g' r rule: run_body.induct)
  case (1 g)
  then show ?case by simp
next
  case (2 m as g)
  then show ?case by simp
next
  case (3 k c as g)
  show ?case
  proof (cases "On k c g")
    case (Inl e)
    with 3 show ?thesis by simp
  next
    case (Inr g1)
    with 3 have "run_body as g1 = (r, g')" by simp
    from 3(1) [OF Inr this] AddCallback_known [OF Inr [unfolded On_def]]
    show ?thesis by (auto simp: action_ids_def)
  qed
next
  case (4 k c as g)
  show ?case
  proof (cases "Once k c g")
    case (Inl e)
    with 4 show ?thesis by simp
  next
    case (Inr g1)
    with 4 have "run_body as g1 = (r, g')" by simp
    from 4(1) [OF Inr this] AddCallback_known [OF Inr [unfolded Once_def]]
    show ?thesis by (auto simp: action_ids_def)
  qed
qed

lemma callback_ids_unfold: "callback_ids f = insert (cb_id f) (action_ids (cb_body f))"
  by (cases f) (simp add: action_ids_def)

lemma Call_callback_known:
  assumes "Call_callback f args (g, ivs) = (r, g', ivs')"
  shows "known g' \<subseteq> known g \<union> callback_ids f \<and> ivs' = ivs @ [(cb_id f, args)]"
proof -
  obtain r1 g1 where rb: "run_body (cb_body f) g = (r1, g1)"
    by (cases "run_body (cb_body f) g") auto
  with assms have "g' = g1" "ivs' = ivs @ [(cb_id f, args)]"
    by (simp_all add: Call_callback_def)
  with run_body_known [OF rb] show ?thesis
    by (auto simp: callback_ids_unfold)
qed

lemma call_each_known:
  "call_each fs args (g, ivs) = (r, g', ivs') \<Longrightarrow>
   known g' \<subseteq> known g \<union> (\<Union>f \<in> set fs. callback_ids f) \<and>
   (\<exists>ext. ivs' = ivs @ ext \<and> fst ` set ext \<subseteq> (\<Union>f \<in> set fs. callback_ids f))"
proof (induction fs arbitrary: g ivs)
  case Nil
  then show ?case by simp
next
  case (Cons f fs)
  obtain r1 g1 ivs1 where c: "Call_callback f args (g, ivs) = (r1, g1, ivs1)"
    by (cases "Call_callback f args (g, ivs)") auto
  from Call_callback_known [OF c]
  have k1: "known g1 \<subseteq> known g \<union> callback_ids f" and i1: "ivs1 = ivs @ [(cb_id f, args)]"
    by simp_all
  have idf: "cb_id f \<in> callback_ids f" by (simp add: callback_ids_unfold)
  show ?case
  proof (cases r1)
    case None
    with c Cons.prems have rest: "call_each fs args (g1, ivs1) = (r, g', ivs')" by simp
    from Cons.IH [OF rest] obtain ext where
      k2: "known g' \<subseteq> known g1 \<union> (\<Union>f \<in> set fs. callback_ids f)"
      and e: "ivs' = ivs1 @ ext" "fst ` set ext \<subseteq> (\<Union>f \<in> set fs. callback_ids f)"
      by blast
    have "ivs' = ivs @ ((cb_id f, args) # ext)" using e i1 by simp
    moreover have "fst ` set ((cb_id f, args) # ext) \<subseteq> (\<Union>f \<in> set (f # fs). callback_ids f)"
      using e idf by auto
    moreover have "known g' \<subseteq> known g \<union> (\<Union>f \<in> set (f # fs). callback_ids f)"
      using k1 k2 by auto
    ultimately show ?thesis by blast
  next
    case (Some e)
    with c Cons.prems have "g' = g1" "ivs' = ivs @ [(cb_id f, args)]" using i1 by simp_all
    moreover have "fst ` set [(cb_id f, args)] \<subseteq> (\<Union>f \<in> set (f # fs). callback_ids f)"
      using idf by simp
    moreover have "known g1 \<subseteq> known g \<union> (\<Union>f \<in> set (f # fs). callback_ids f)"
      using k1 by auto
    ultimately show ?thesis by blast
  qed
qed

lemma at_key_known:
  "(\<Union>f \<in> set (at_key (callbacks g) n). callback_ids f) \<subseteq> known g"
  "(\<Union>f \<in> set (at_key (callbacksOnce g) n). callback_ids f) \<subseteq> known g"
proof -
  show "(\<Union>f \<in> set (at_key (callbacks g) n). callback_ids f) \<subseteq> known g"
    by (cases "callbacks g n") (auto simp: at_key_def known_def ran_def)
  show "(\<Union>f \<in> set (at_key (callbacksOnce g) n). callback_ids f) \<subseteq> known g"
    by (cases "callbacksOnce g n") (auto simp: at_key_def known_def ran_def)
qed

lemma known_cleared:
  "known (g\<lparr> callbacksOnce := (callbacksOnce g)(n \<mapsto> []) \<rparr>) \<subseteq> known g"
  by (auto simp: known_def ran_def split: if_splits)

lemma CallCalbacks_known:
  assumes "CallCalbacks n args isOnce (g, ivs) = (r, g', ivs')"
  shows "known g' \<subseteq> known g \<and> (\<exists>ext. ivs' = ivs @ ext \<and> fst ` set ext \<subseteq> known g)"
proof (cases isOnce)
  case True
  let ?g1 = "g\<lparr> callbacksOnce := (callbacksOnce g)(n \<mapsto> []) \<rparr>"
  from assms True
  have "call_each (at_key (callbacksOnce g) n) args (?g1, ivs) = (r, g', ivs')"
    by (simp add: CallCalbacks_def)
  from call_each_known [OF this] known_cleared [of g n] at_key_known(2) [of g n]
  show ?thesis by blast
next
  case False
  with assms have "call_each (at_key (callbacks g) n) args (g, ivs) = (r, g', ivs')"
    by (simp add: CallCalbacks_def)
  from call_each_known [OF this] at_key_known(1) [of g n]
  show ?thesis by blast
qed

lemma SendEvent_known:
  assumes "SendEvent n args (g, ivs) = (r, g', ivs')"
  shows "known g' \<subseteq> known g \<and> (\<exists>ext. ivs' = ivs @ ext \<and> fst ` set ext \<subseteq> known g)"
proof -
  obtain r1 g1 ivs1 where p1: "CallCalbacks n args False (g, ivs) = (r1, g1, ivs1)"
    by (cases "CallCalbacks n args False (g, ivs)") auto
  from CallCalbacks_known [OF p1] obtain e1 where
    k1: "known g1 \<subseteq> known g" and e1: "ivs1 = ivs @ e1" "fst ` set e1 \<subseteq> known g" by blast
  show ?thesis
  proof (cases r1)
    case None
    with assms p1 have p2: "CallCalbacks n args True (g1, ivs1) = (r, g', ivs')"
      by (simp add: SendEvent_def)
    from CallCalbacks_known [OF p2] obtain e2 where
      k2: "known g' \<subseteq> known g1" and e2: "ivs' = ivs1 @ e2" "fst ` set e2 \<subseteq> known g1" by blast
    have "ivs' = ivs @ (e1 @ e2)" using e1 e2 by simp
    moreover have "fst ` set (e1 @ e2) \<subseteq> known g" using e1 e2 k1 by auto
    ultimately show ?thesis using k1 k2 by blast
  next
    case (Some e)
    with assms p1 have "g' = g1" "ivs' = ivs1" by (simp_all add: SendEvent_def)
    with k1 e1 show ?thesis by blast
  qed
qed


text \<open>
  C5. Start from the freshly constructed registry, register \<open>cb\<close> with \<open>Once\<close> for
  \<^verbatim>\<open>tick\<close> and call \<open>SendEvent\<close> for \<^verbatim>\<open>tick\<close> twice with no arguments. The first call
  invokes \<open>cb\<close> and nothing else, whatever \<open>cb\<close> registers while it runs. If the body of
  \<open>cb\<close> does not mention \<open>cb\<close> itself, \<open>cb\<close> is invoked exactly once over the two calls.
  If the body of \<open>cb\<close> is the single call \<^verbatim>\<open>once("tick", cb2)\<close>, the second
  \<open>SendEvent\<close> invokes \<open>cb2\<close> and nothing else.
\<close>

theorem Once_fires_once:
  assumes reg: "Once ''tick'' cb EventsGlobalState_new = Inr g1"
    and s1: "SendEvent ''tick'' [] (g1, []) = (r1, g2, ivs1)"
    and s2: "SendEvent ''tick'' [] (g2, ivs1) = (r2, g3, ivs2)"
  shows "ivs1 = [(cb_id cb, [])] \<and>
         (cb_id cb \<notin> action_ids (cb_body cb) \<longrightarrow> count_list (map fst ivs2) (cb_id cb) = 1) \<and>
         (\<forall>cb2. cb_body cb = [CallOnce ''tick'' cb2] \<longrightarrow>
                ivs2 = [(cb_id cb, []), (cb_id cb2, [])])"
proof -
  let ?g0 = "EventsGlobalState_new\<lparr> callbacksOnce := [''tick'' \<mapsto> []] \<rparr>"
  have tick: "''tick'' \<in> events" by (simp add: events_def)
  have g1: "g1 = EventsGlobalState_new\<lparr> callbacksOnce := [''tick'' \<mapsto> [cb]] \<rparr>"
    using reg tick by (simp add: Once_def AddCallback_def EventsGlobalState_new_def at_key_def)
  obtain rb gb where rb: "run_body (cb_body cb) ?g0 = (rb, gb)"
    by (cases "run_body (cb_body cb) ?g0") auto
  have first: "SendEvent ''tick'' [] (g1, []) = (rb, gb, [(cb_id cb, [])])"
    using rb
    by (cases rb)
       (simp_all add: g1 SendEvent_def CallCalbacks_def Call_callback_def at_key_def
          EventsGlobalState_new_def)
  from s1 first have i1: "ivs1 = [(cb_id cb, [])]" and g2: "g2 = gb" by simp_all
  have k0: "known ?g0 = {}"
    by (simp add: known_def EventsGlobalState_new_def)
  have k2: "known g2 \<subseteq> action_ids (cb_body cb)"
    using run_body_known [OF rb] k0 g2 by simp
  have once: "count_list (map fst ivs2) (cb_id cb) = 1" if "cb_id cb \<notin> action_ids (cb_body cb)"
  proof -
    from SendEvent_known [OF s2] obtain ext where
      e: "ivs2 = ivs1 @ ext" "fst ` set ext \<subseteq> known g2" by blast
    with k2 that have "cb_id cb \<notin> set (map fst ext)" by auto
    then have "count_list (map fst ext) (cb_id cb) = 0" by (simp add: count_list_0_iff)
    with e i1 show ?thesis by simp
  qed
  have next_pass: "ivs2 = [(cb_id cb, []), (cb_id cb2, [])]"
    if b: "cb_body cb = [CallOnce ''tick'' cb2]" for cb2
  proof -
    have "gb = EventsGlobalState_new\<lparr> callbacksOnce := [''tick'' \<mapsto> [cb2]] \<rparr>"
      using rb tick
      by (simp add: b Once_def AddCallback_def at_key_def EventsGlobalState_new_def)
    with g2 have g2': "g2 = EventsGlobalState_new\<lparr> callbacksOnce := [''tick'' \<mapsto> [cb2]] \<rparr>"
      by simp
    obtain rc gc where rc: "run_body (cb_body cb2) ?g0 = (rc, gc)"
      by (cases "run_body (cb_body cb2) ?g0") auto
    have "SendEvent ''tick'' [] (g2, ivs1) = (rc, gc, ivs1 @ [(cb_id cb2, [])])"
      using rc
      by (cases rc)
         (simp_all add: g2' SendEvent_def CallCalbacks_def Call_callback_def at_key_def
            EventsGlobalState_new_def)
    with s2 i1 show ?thesis by simp
  qed
  show ?thesis using i1 once next_pass by blast
qed

theorem Once_fires_once_witness:
  "case Once ''tick'' ex_registrar EventsGlobalState_new of
     Inl e \<Rightarrow> False
   | Inr g1 \<Rightarrow>
       (case SendEvent ''tick'' [] (g1, []) of
          (r1, g2, ivs1) \<Rightarrow>
            (case SendEvent ''tick'' [] (g2, ivs1) of
               (r2, g3, ivs2) \<Rightarrow>
                 ivs1 = [(1, [])] \<and> ivs2 = [(1, []), (2, [])] \<and>
                 count_list (map fst ivs2) 1 = 1))"
proof -
  have tick: "''tick'' \<in> events" by (simp add: events_def)
  obtain g1 where reg: "Once ''tick'' ex_registrar EventsGlobalState_new = Inr g1"
    using tick by (simp add: Once_def AddCallback_def)
  obtain r1 g2 ivs1 where s1: "SendEvent ''tick'' [] (g1, []) = (r1, g2, ivs1)"
    by (cases "SendEvent ''tick'' [] (g1, [])") auto
  obtain r2 g3 ivs2 where s2: "SendEvent ''tick'' [] (g2, ivs1) = (r2, g3, ivs2)"
    by (cases "SendEvent ''tick'' [] (g2, ivs1)") auto
  have fresh: "cb_id ex_registrar \<notin> action_ids (cb_body ex_registrar)"
    by (simp add: ex_registrar_def action_ids_def)
  have body: "cb_body ex_registrar = [CallOnce ''tick'' (Callback 2 [])]"
    by (simp add: ex_registrar_def)
  note t = Once_fires_once [OF reg s1 s2]
  have "ivs1 = [(1, [])]"
    using t [THEN conjunct1] by (simp add: ex_registrar_def)
  moreover have "count_list (map fst ivs2) 1 = 1"
    using t [THEN conjunct2, THEN conjunct1, THEN mp, OF fresh] by (simp add: ex_registrar_def)
  moreover have "ivs2 = [(1, []), (2, [])]"
    using t [THEN conjunct2, THEN conjunct2, THEN spec, THEN mp, OF body]
    by (simp add: ex_registrar_def)
  ultimately show ?thesis using reg s1 s2 by simp
qed

end
